theory Spec2Isabelle
  imports Complex_Main "HOL-Library.Multiset" "HOL-Library.Log_Nat"
begin

section \<open>Errors\<close>

text \<open>
  The Python exceptions that the modelled code can raise, as values. A fallible
  function returns \<open>error + 'a\<close>, with \<open>Inl\<close> for the exception. \<open>NotANumber\<close>
  stands for a float result that is no real number (\<open>nan\<close>, \<open>-inf\<close>): it is not an
  exception in Python, but it is no value of the real-valued model either.
\<close>

datatype error =
    InvalidArgument | AttributeError | TypeError | IndexError | ValueError | OverflowError
  | NotANumber

section \<open>Binary64 arithmetic\<close>

text \<open>
  Python's \<open>float\<close> is an IEEE 754 binary64 number: a finite value, an infinity or
  \<open>nan\<close>. A finite value is carried as the real number it denotes (the sign of a zero
  plays no part below). The finite binary64 numbers are the multiples \<open>m * 2^e\<close> of a
  power of two with \<open>|m| < 2^53\<close> and \<open>-1074 \<le> e\<close>, below \<open>2^1024\<close> in magnitude.
\<close>

datatype float64 = Finite real | PosInf | NegInf | NaN

definition emin :: nat where
  \<comment> \<open>Every finite binary64 number is a multiple of \<open>2^-1074\<close>.\<close>
  "emin = 1074"

definition emax :: nat where
  \<comment> \<open>A result of magnitude \<open>2^1024\<close> or more overflows to an infinity.\<close>
  "emax = 1024"

definition rhe :: "real \<Rightarrow> int" where
  \<comment> \<open>Rounding to the nearest integer, a tie going to the even one.\<close>
  "rhe y =
     (let f = \<lfloor>y\<rfloor>; d = y - of_int f
      in if d < 1 / 2 then f else if 1 / 2 < d then f + 1 else if even f then f else f + 1)"

definition ulp_exp :: "real \<Rightarrow> nat" where
  \<comment> \<open>The binary64 numbers around \<open>a \<ge> 0\<close> are spaced \<open>2^s * 2^-1074\<close> apart, where \<open>s\<close>
      is the number of bits of \<open>a / 2^-1074\<close> beyond the 53 bits of the significand.\<close>
  "ulp_exp a = nat (bitlen \<lfloor>a * 2 ^ emin\<rfloor> - 53)"

definition rne :: "real \<Rightarrow> real" where
  \<comment> \<open>Rounding to nearest, ties to even, with an unbounded exponent range above.\<close>
  "rne x =
     (let a = \<bar>x\<bar>; q = 2 ^ ulp_exp a / 2 ^ emin
      in sgn x * of_int (rhe (a / q)) * q)"

definition binary64 :: "real \<Rightarrow> bool" where
  \<comment> \<open>The real numbers that are finite binary64 values.\<close>
  "binary64 x \<longleftrightarrow> rne x = x \<and> \<bar>x\<bar> < 2 ^ emax"

definition round64 :: "real \<Rightarrow> float64" where
  \<comment> \<open>The binary64 result of an operation whose exact result is \<open>x\<close>.\<close>
  "round64 x =
     (let y = rne x
      in if 2 ^ emax \<le> y then PosInf else if y \<le> - (2 ^ emax) then NegInf else Finite y)"

definition float_of_nat :: "nat \<Rightarrow> error + float64" where
  \<comment> \<open>The conversion of the \<open>int\<close> operand in \<open>float * int\<close>: the nearest binary64
      number; an \<open>int\<close> too large for a float raises \<open>OverflowError\<close>.\<close>
  "float_of_nat n =
     (case round64 (real n) of Finite y \<Rightarrow> Inr (Finite y) | _ \<Rightarrow> Inl OverflowError)"

fun fmul :: "float64 \<Rightarrow> float64 \<Rightarrow> float64" where
  \<comment> \<open>The product of two floats.\<close>
  "fmul (Finite x) (Finite y) = round64 (x * y)"
| "fmul NaN _ = NaN"
| "fmul _ NaN = NaN"
| "fmul PosInf (Finite y) = (if 0 < y then PosInf else if y < 0 then NegInf else NaN)"
| "fmul NegInf (Finite y) = (if 0 < y then NegInf else if y < 0 then PosInf else NaN)"
| "fmul (Finite x) PosInf = (if 0 < x then PosInf else if x < 0 then NegInf else NaN)"
| "fmul (Finite x) NegInf = (if 0 < x then NegInf else if x < 0 then PosInf else NaN)"
| "fmul PosInf PosInf = PosInf"
| "fmul PosInf NegInf = NegInf"
| "fmul NegInf PosInf = NegInf"
| "fmul NegInf NegInf = PosInf"

fun py_int :: "float64 \<Rightarrow> error + int" where
  \<comment> \<open>Python's \<open>int(x)\<close> on a float: truncation toward zero; \<open>OverflowError\<close> on an
      infinity and \<open>ValueError\<close> on \<open>nan\<close>.\<close>
  "py_int (Finite x) = Inr (if 0 \<le> x then \<lfloor>x\<rfloor> else \<lceil>x\<rceil>)"
| "py_int PosInf = Inl OverflowError"
| "py_int NegInf = Inl OverflowError"
| "py_int NaN = Inl ValueError"

section \<open>Train/validation split\<close>

text \<open>
  The notebook cell:
  \<^verbatim>\<open>
  train_ratio = 0.90
  split_idx = int(train_ratio * len(text_data))
  train_data = text_data[:split_idx]
  val_data = text_data[split_idx:]
  \<close>
  The corpus is a sequence of characters; the split is the same for every character
  type, so the corpus is an \<open>'a list\<close>. The ratio is a float, the product is the binary64
  product of the ratio and the length, and \<open>int\<close> fails on a product that is infinite
  or \<open>nan\<close>.
\<close>

definition slice_bound :: "nat \<Rightarrow> int \<Rightarrow> nat" where
  \<comment> \<open>Python's reading of a slice bound \<open>i\<close> on a sequence of length \<open>n\<close>: a negative
      bound counts from the end, and every bound is clamped into \<open>0..n\<close>.\<close>
  "slice_bound n i = (if i < 0 then nat (max 0 (int n + i)) else min (nat i) n)"

definition slice_to :: "'a list \<Rightarrow> int \<Rightarrow> 'a list" where
  \<comment> \<open>\<open>xs[:i]\<close>\<close>
  "slice_to xs i = take (slice_bound (length xs) i) xs"

definition slice_from :: "'a list \<Rightarrow> int \<Rightarrow> 'a list" where
  \<comment> \<open>\<open>xs[i:]\<close>\<close>
  "slice_from xs i = drop (slice_bound (length xs) i) xs"

definition train_ratio :: float64 where
  \<comment> \<open>The literal \<open>0.90\<close>: the binary64 number nearest to 9/10.\<close>
  "train_ratio = round64 (9 / 10)"

definition split_idx :: "float64 \<Rightarrow> 'a list \<Rightarrow> error + int" where
  \<comment> \<open>\<open>int(train_ratio * len(text_data))\<close>, for any ratio.\<close>
  "split_idx ratio text_data =
     (case float_of_nat (length text_data) of
        Inl e \<Rightarrow> Inl e
      | Inr n \<Rightarrow> py_int (fmul ratio n))"

definition train_data :: "'a list \<Rightarrow> int \<Rightarrow> 'a list" where
  \<comment> \<open>\<open>text_data[:split_idx]\<close>, as a function of the index \<open>i\<close> computed before.\<close>
  "train_data text_data i = slice_to text_data i"

definition val_data :: "'a list \<Rightarrow> int \<Rightarrow> 'a list" where
  \<comment> \<open>\<open>text_data[split_idx:]\<close>\<close>
  "val_data text_data i = slice_from text_data i"

definition splitter :: "'a list \<Rightarrow> float64 \<Rightarrow> error + ('a list \<times> 'a list)" where
  \<comment> \<open>The cell as one operation: an exception of \<open>split_idx\<close> ends it, otherwise both
      slices are returned. The cell has no check of its own.\<close>
  "splitter text_data ratio =
     (case split_idx ratio text_data of
        Inl e \<Rightarrow> Inl e
      | Inr i \<Rightarrow> Inr (train_data text_data i, val_data text_data i))"

section \<open>Text to token IDs and back\<close>

text \<open>
  A tensor of token IDs, of any rank: a scalar, or a sequence of tensors along the
  leading dimension. \<open>torch.tensor(encoded)\<close> of a list of ints is the rank-1 tensor
  of its elements.
\<close>

datatype tensor = Scalar nat | Tensor "tensor list"

definition torch_tensor :: "nat list \<Rightarrow> tensor" where
  "torch_tensor encoded = Tensor (map Scalar encoded)"

definition unsqueeze0 :: "tensor \<Rightarrow> tensor" where
  \<comment> \<open>\<open>.unsqueeze(0)\<close>: a new leading dimension of size 1.\<close>
  "unsqueeze0 t = Tensor [t]"

fun squeeze0 :: "tensor \<Rightarrow> tensor" where
  \<comment> \<open>\<open>.squeeze(0)\<close>: the leading dimension is removed when its size is 1; every
      other tensor is returned as it is.\<close>
  "squeeze0 (Tensor [t]) = t"
| "squeeze0 t = t"

fun scalar_value :: "tensor \<Rightarrow> error + nat" where
  "scalar_value (Scalar n) = Inr n"
| "scalar_value (Tensor ts) = Inl TypeError"

fun scalar_values :: "tensor list \<Rightarrow> error + nat list" where
  "scalar_values [] = Inr []"
| "scalar_values (t # ts) =
     (case scalar_value t of
        Inl e \<Rightarrow> Inl e
      | Inr n \<Rightarrow> (case scalar_values ts of Inl e \<Rightarrow> Inl e | Inr ns \<Rightarrow> Inr (n # ns)))"

fun tolist :: "tensor \<Rightarrow> error + nat list" where
  \<comment> \<open>\<open>.tolist()\<close> as \<open>decode\<close> needs it: a flat list of ints. A rank-0 tensor gives
      a single int and a tensor of rank 2 or more gives nested lists; the tokenizer
      rejects both with a \<open>TypeError\<close>.\<close>
  "tolist (Scalar n) = Inl TypeError"
| "tolist (Tensor ts) = scalar_values ts"

text \<open>
  The tokenizer (\<open>tiktoken.Encoding\<close>) is an external collaborator: \<open>encode\<close> takes
  the text and the set of special tokens allowed in it, \<open>decode\<close> a list of token
  IDs. Either may fail, and the failure reaches the caller unchanged.
\<close>

record tokenizer =
  encode :: "string \<Rightarrow> string list \<Rightarrow> error + nat list"
  decode :: "nat list \<Rightarrow> error + string"

text \<open>
  \<^verbatim>\<open>
  def text_to_token_ids(text, tokenizer=None):
      # Instantiate a default tokenizer (if non was provided).
      encoded = tokenizer.encode(text, allowed_special={"<|endoftext|>"})
      encoded_tensor = torch.tensor(encoded).unsqueeze(0)
      return encoded_tensor

  def token_ids_to_text(token_ids, tokenizer=None):
      # Instantiate a default tokenizer (if non was provided).
      flat = token_ids.squeeze(0)
      return tokenizer.decode(flat.tolist())
  \<close>
  The parameter \<open>tokenizer\<close> is \<open>Optional\<close>; \<open>None\<close> has neither \<open>encode\<close> nor
  \<open>decode\<close>, so the attribute lookup raises \<open>AttributeError\<close>.
\<close>

definition text_to_token_ids :: "string \<Rightarrow> tokenizer option \<Rightarrow> error + tensor" where
  "text_to_token_ids text tokenizer =
     (case tokenizer of
        None \<Rightarrow> Inl AttributeError
      | Some tok \<Rightarrow>
          (case encode tok text [''<|endoftext|>''] of
             Inl e \<Rightarrow> Inl e
           | Inr encoded \<Rightarrow> Inr (unsqueeze0 (torch_tensor encoded))))"

definition token_ids_to_text :: "tensor \<Rightarrow> tokenizer option \<Rightarrow> error + string" where
  "token_ids_to_text token_ids tokenizer =
     (let flat = squeeze0 token_ids in
      case tokenizer of
        None \<Rightarrow> Inl AttributeError
      | Some tok \<Rightarrow>
          (case tolist flat of
             Inl e \<Rightarrow> Inl e
           | Inr ids \<Rightarrow> decode tok ids))"

section \<open>Windowed batch builder\<close>

text \<open>
  Modelled from the spec: the builder \<open>create_dataloader_v1\<close> is defined in another
  notebook of the repository (\<open>chapter_02_dataset_creation\<close>); this notebook only
  imports and calls it. The definitions below follow section 4.2 and section 7 of the
  specification:
  \<^item> pairs \<open>(tokens[i : i+L], tokens[i+1 : i+L+1])\<close> for \<open>i\<close> starting at 0 and advancing
    by \<open>S\<close>, while \<open>i + L + 1 <= len(tokens)\<close>;
  \<^item> a window length or stride that is not positive fails with invalid-argument;
  \<^item> with shuffling, the order of the pairs is permuted, not their content;
  \<^item> consecutive pairs are grouped into batches of the batch size; a smaller final
    batch is dropped with \<open>drop_last\<close> and emitted otherwise.
\<close>

definition window :: "'a list \<Rightarrow> nat \<Rightarrow> nat \<Rightarrow> 'a list" where
  \<comment> \<open>Modelled from the spec: the slice \<open>tokens[a : b]\<close> of section 4.2, for bounds
      that are not negative.\<close>
  "window tokens a b = take (b - a) (drop a tokens)"

function window_pairs_from :: "'a list \<Rightarrow> nat \<Rightarrow> nat \<Rightarrow> nat \<Rightarrow> ('a list \<times> 'a list) list" where
  \<comment> \<open>Modelled from the spec: the loop of \<open>create_dataloader_v1\<close> over the start index
      \<open>i\<close> (section 4.2). The stride is positive whenever the builder runs the loop; the
      test \<open>0 < S\<close> makes the function total for the other strides.\<close>
  "window_pairs_from tokens L S i =
     (if 0 < S \<and> i + L + 1 \<le> length tokens
      then (window tokens i (i + L), window tokens (i + 1) (i + L + 1))
           # window_pairs_from tokens L S (i + S)
      else [])"
  by pat_completeness auto
termination
  by (relation "measure (\<lambda>(tokens, L, S, i). length tokens - i)") auto

declare window_pairs_from.simps [simp del]

definition window_pairs :: "'a list \<Rightarrow> nat \<Rightarrow> nat \<Rightarrow> ('a list \<times> 'a list) list" where
  \<comment> \<open>Modelled from the spec: the sequence of pairs of \<open>create_dataloader_v1\<close>, with
      \<open>i\<close> starting at 0.\<close>
  "window_pairs tokens L S = window_pairs_from tokens L S 0"

function batches :: "nat \<Rightarrow> bool \<Rightarrow> 'b list \<Rightarrow> 'b list list" where
  \<comment> \<open>Modelled from the spec: the grouping of \<open>create_dataloader_v1\<close> into batches
      (section 4.2). The specification gives no behaviour for a batch size of 0; the
      model emits no batch there.\<close>
  "batches batch_size drop_last xs =
     (if batch_size = 0 \<or> xs = [] then []
      else if length xs < batch_size then (if drop_last then [] else [xs])
      else take batch_size xs # batches batch_size drop_last (drop batch_size xs))"
  by pat_completeness auto
termination
  by (relation "measure (\<lambda>(batch_size, drop_last, xs). length xs)") auto

declare batches.simps [simp del]

definition windowed_batch_builder ::
  "'a list \<Rightarrow> int \<Rightarrow> int \<Rightarrow> nat \<Rightarrow> bool \<Rightarrow>
   (('a list \<times> 'a list) list \<Rightarrow> ('a list \<times> 'a list) list) option \<Rightarrow>
   error + ('a list \<times> 'a list) list list" where
  \<comment> \<open>Modelled from the spec: \<open>create_dataloader_v1\<close> as sections 4.2 and 7 describe
      it. \<open>shuffle = None\<close>: shuffling disabled. \<open>shuffle = Some f\<close>: the pairs are
      emitted in the order \<open>f\<close> gives them, \<open>f\<close> standing for the seeded random source.\<close>
  "windowed_batch_builder tokens L S batch_size drop_last shuffle =
     (if L \<le> 0 \<or> S \<le> 0 then Inl InvalidArgument
      else
        let pairs = window_pairs tokens (nat L) (nat S);
            ordered = (case shuffle of None \<Rightarrow> pairs | Some f \<Rightarrow> f pairs)
        in Inr (batches batch_size drop_last ordered))"

section \<open>Loss\<close>

text \<open>
  Tensors of reals are nested lists: logits and probabilities of shape
  \<open>(batch, positions, vocabulary)\<close> are \<open>real list list list\<close>, targets of shape
  \<open>(batch, positions)\<close> are \<open>nat list list\<close> (token IDs are indices into the
  vocabulary, so they are not negative). All arithmetic is exact real arithmetic.

  \<open>torch.softmax(x, dim=-1)\<close>, on one row of logits:
\<close>

definition softmax :: "real list \<Rightarrow> real list" where
  "softmax xs = map (\<lambda>x. exp x / sum_list (map exp xs)) xs"

text \<open>
  \<open>log_softmax\<close> on one row, as \<open>cross_entropy\<close> computes it from the raw logits: the
  row maximum is subtracted before exponentiation.
\<close>

fun log_softmax :: "real list \<Rightarrow> real list" where
  "log_softmax [] = []"
| "log_softmax (x # xs) =
     (let m = fold max xs x
      in map (\<lambda>y. y - m - ln (sum_list (map (\<lambda>z. exp (z - m)) (x # xs)))) (x # xs))"

text \<open>
  The entries that \<open>cross_entropy\<close> reads: from the \<open>k\<close>-th row the entry at the
  \<open>k\<close>-th target. A target outside the row raises \<open>IndexError\<close>.
\<close>

fun gather_rows :: "real list list \<Rightarrow> nat list \<Rightarrow> error + real list" where
  "gather_rows [] [] = Inr []"
| "gather_rows (row # rows) (t # ts) =
     (if t < length row
      then (case gather_rows rows ts of Inl e \<Rightarrow> Inl e | Inr ps \<Rightarrow> Inr (row ! t # ps))
      else Inl IndexError)"
| "gather_rows [] (t # ts) = Inl IndexError"
| "gather_rows (row # rows) [] = Inl IndexError"

text \<open>
  The notebook gathers the target probabilities of the two batch elements of its
  example, at the three positions of the example, and concatenates them:
  \<^verbatim>\<open>
  batch_idx = 0
  target_probas_1 = probas[batch_idx, [0, 1, 2], targets[batch_idx]]
  batch_idx = 1
  target_probas_2 = probas[batch_idx, [0, 1, 2], targets[batch_idx]]
  ... torch.cat((target_probas_1, target_probas_2))
  \<close>
  The two index lists of \<open>probas[batch_idx, positions, ts]\<close> are broadcast against each
  other: they have the same length, or one of them has length 1. Every index
  outside its dimension, and index lists that cannot be broadcast, raise
  \<open>IndexError\<close>.
\<close>

definition broadcast_pairs :: "nat list \<Rightarrow> nat list \<Rightarrow> error + (nat \<times> nat) list" where
  "broadcast_pairs positions ts =
     (if length positions = length ts then Inr (zip positions ts)
      else if length ts = 1 then Inr (map (\<lambda>p. (p, hd ts)) positions)
      else if length positions = 1 then Inr (map (\<lambda>t. (hd positions, t)) ts)
      else Inl IndexError)"

fun gather_at :: "real list list \<Rightarrow> (nat \<times> nat) list \<Rightarrow> error + real list" where
  "gather_at rows [] = Inr []"
| "gather_at rows ((p, t) # ixs) =
     (if p < length rows \<and> t < length (rows ! p)
      then (case gather_at rows ixs of Inl e \<Rightarrow> Inl e | Inr xs \<Rightarrow> Inr (rows ! p ! t # xs))
      else Inl IndexError)"

definition index_batch ::
  "real list list list \<Rightarrow> nat \<Rightarrow> nat list \<Rightarrow> nat list \<Rightarrow> error + real list" where
  \<comment> \<open>\<open>probas[batch_idx, positions, ts]\<close>\<close>
  "index_batch probas batch_idx positions ts =
     (if batch_idx < length probas
      then (case broadcast_pairs positions ts of
              Inl e \<Rightarrow> Inl e
            | Inr ixs \<Rightarrow> gather_at (probas ! batch_idx) ixs)
      else Inl IndexError)"

definition target_probas_of ::
  "real list list list \<Rightarrow> nat list list \<Rightarrow> nat \<Rightarrow> error + real list" where
  \<comment> \<open>\<open>probas[batch_idx, [0, 1, 2], targets[batch_idx]]\<close>\<close>
  "target_probas_of probas targets batch_idx =
     (if batch_idx < length targets
      then index_batch probas batch_idx [0, 1, 2] (targets ! batch_idx)
      else Inl IndexError)"

definition target_probas :: "real list list list \<Rightarrow> nat list list \<Rightarrow> error + real list" where
  \<comment> \<open>\<open>torch.cat((target_probas_1, target_probas_2))\<close>\<close>
  "target_probas probas targets =
     (case target_probas_of probas targets 0 of
        Inl e \<Rightarrow> Inl e
      | Inr target_probas_1 \<Rightarrow>
          (case target_probas_of probas targets 1 of
             Inl e \<Rightarrow> Inl e
           | Inr target_probas_2 \<Rightarrow> Inr (target_probas_1 @ target_probas_2)))"

fun torch_log :: "real list \<Rightarrow> error + real list" where
  \<comment> \<open>\<open>torch.log\<close>, elementwise. The logarithm of a number that is not positive is
      \<open>-inf\<close> or \<open>nan\<close>, no real number.\<close>
  "torch_log [] = Inr []"
| "torch_log (x # xs) =
     (if 0 < x
      then (case torch_log xs of Inl e \<Rightarrow> Inl e | Inr ys \<Rightarrow> Inr (ln x # ys))
      else Inl NotANumber)"

definition torch_mean :: "real list \<Rightarrow> error + real" where
  \<comment> \<open>\<open>torch.mean\<close>; the mean of no element is \<open>nan\<close>.\<close>
  "torch_mean xs = (if xs = [] then Inl NotANumber else Inr (sum_list xs / real (length xs)))"

text \<open>
  The step-by-step loss, from the probabilities on:
  \<^verbatim>\<open>
  log_probas = torch.log(torch.cat((target_probas_1, target_probas_2)))
  avg_log_probas = torch.mean(log_probas)
  neg_avg_log_probas = avg_log_probas * -1
  \<close>
\<close>

definition loss_from_probas :: "real list list list \<Rightarrow> nat list list \<Rightarrow> error + real" where
  "loss_from_probas probas targets =
     (case target_probas probas targets of
        Inl e \<Rightarrow> Inl e
      | Inr tp \<Rightarrow>
          (case torch_log tp of
             Inl e \<Rightarrow> Inl e
           | Inr log_probas \<Rightarrow>
               (case torch_mean log_probas of
                  Inl e \<Rightarrow> Inl e
                | Inr avg_log_probas \<Rightarrow> Inr (avg_log_probas * - 1))))"

definition neg_avg_log_probas :: "real list list list \<Rightarrow> nat list list \<Rightarrow> error + real" where
  \<comment> \<open>\<open>probas = torch.softmax(logits, dim=-1)\<close>, then the steps above.\<close>
  "neg_avg_log_probas logits targets = loss_from_probas (map (map softmax) logits) targets"

text \<open>
  \<open>torch.nn.functional.cross_entropy(input, target)\<close> with its defaults, on an input
  of shape \<open>(N, V)\<close> and a target of shape \<open>(N)\<close>: the mean over the \<open>N\<close> rows of the
  negated log-softmax entry at the target. Different numbers of rows raise
  \<open>ValueError\<close>, a target outside the row \<open>IndexError\<close>.
\<close>

definition cross_entropy :: "real list list \<Rightarrow> nat list \<Rightarrow> error + real" where
  "cross_entropy input target =
     (if length input \<noteq> length target then Inl ValueError
      else
        (case gather_rows (map log_softmax input) target of
           Inl e \<Rightarrow> Inl e
         | Inr log_probs \<Rightarrow> torch_mean (map uminus log_probs)))"

text \<open>
  \<^verbatim>\<open>
  logits_flat = logits.flatten(0, 1)
  targets_flat = targets.flatten()
  loss = torch.nn.functional.cross_entropy(logits_flat, targets_flat)
  \<close>
\<close>

definition loss :: "real list list list \<Rightarrow> nat list list \<Rightarrow> error + real" where
  "loss logits targets = cross_entropy (concat logits) (concat targets)"

text \<open>
  The shape of the inputs: logits of shape \<open>(B, T, V)\<close> and targets of shape \<open>(B, T)\<close>
  whose entries are token IDs below \<open>V\<close>.
\<close>

definition has_shape :: "nat \<Rightarrow> nat \<Rightarrow> nat \<Rightarrow> real list list list \<Rightarrow> nat list list \<Rightarrow> bool" where
  "has_shape B T V logits targets \<longleftrightarrow>
     length logits = B \<and> length targets = B \<and>
     (\<forall>rows\<in>set logits. length rows = T \<and> (\<forall>row\<in>set rows. length row = V)) \<and>
     (\<forall>ts\<in>set targets. length ts = T \<and> (\<forall>t\<in>set ts. t < V))"

text \<open>
  The loss in the words of the specification: the mean, over all \<open>B * T\<close> entries, of the
  negative log-probability \<open>exp(logit of the target) / sum of exp(logit)\<close> that the
  model gives to the true next token.
\<close>

definition mean_neg_log_prob ::
  "nat \<Rightarrow> nat \<Rightarrow> nat \<Rightarrow> real list list list \<Rightarrow> nat list list \<Rightarrow> real" where
  "mean_neg_log_prob B T V logits targets =
     - (\<Sum>b<B. \<Sum>p<T.
          ln (exp (logits ! b ! p ! (targets ! b ! p)) / (\<Sum>v<V. exp (logits ! b ! p ! v))))
       / real (B * T)"

section \<open>Properties of binary64 rounding\<close>

lemma rhe_of_int: "rhe (of_int k) = k"
  by (simp add: rhe_def)

lemma rhe_le:
  assumes "y \<le> of_int k"
  shows "rhe y \<le> k"
proof -
  have f: "of_int \<lfloor>y\<rfloor> \<le> y" "y < of_int \<lfloor>y\<rfloor> + 1"
    by linarith+
  have "\<lfloor>y\<rfloor> \<le> k"
    using assms f by linarith
  moreover have "\<lfloor>y\<rfloor> + 1 \<le> k" if "1 / 2 \<le> y - of_int \<lfloor>y\<rfloor>"
  proof -
    have "of_int \<lfloor>y\<rfloor> < (of_int k :: real)"
      using that assms by linarith
    then show ?thesis
      by linarith
  qed
  ultimately show ?thesis
    by (auto simp: rhe_def Let_def)
qed

lemma rhe_ge:
  assumes "of_int k \<le> y"
  shows "k \<le> rhe y"
proof -
  have "k \<le> \<lfloor>y\<rfloor>"
    using assms by (simp add: le_floor_iff)
  then show ?thesis
    by (auto simp: rhe_def Let_def)
qed

lemma rhe_less:
  assumes "y < of_int k - 1 / 2"
  shows "rhe y < k"
proof -
  have f: "of_int \<lfloor>y\<rfloor> \<le> y" "y < of_int \<lfloor>y\<rfloor> + 1"
    by linarith+
  have a: "\<lfloor>y\<rfloor> < k"
    using assms f by linarith
  have "\<lfloor>y\<rfloor> + 1 < k" if "1 / 2 \<le> y - of_int \<lfloor>y\<rfloor>"
  proof -
    have "of_int \<lfloor>y\<rfloor> + 1 < (of_int k :: real)"
      using that assms by linarith
    then show ?thesis
      by linarith
  qed
  with a show ?thesis
    by (auto simp: rhe_def Let_def)
qed

lemma ulp_exp_le:
  assumes "a < 2 ^ (53 + j)"
  shows "ulp_exp a \<le> emin + j"
proof -
  have "a * 2 ^ emin < 2 ^ (53 + j) * 2 ^ emin"
    using assms by (intro mult_strict_right_mono) simp_all
  also have "\<dots> = 2 ^ (53 + j + emin)"
    by (simp only: power_add)
  finally have "a * 2 ^ emin < of_int (2 ^ (53 + j + emin))"
    by simp
  then have "\<lfloor>a * 2 ^ emin\<rfloor> < 2 ^ nat (int (53 + j + emin))"
    by (simp only: floor_less_iff nat_int)
  then have "bitlen \<lfloor>a * 2 ^ emin\<rfloor> \<le> int (53 + j + emin)"
    by (simp only: bitlen_le_iff_power) simp
  then show ?thesis
    unfolding ulp_exp_def by linarith
qed

lemma rne_nonneg_eq:
  assumes "0 \<le> a"
  shows "rne a = of_int (rhe (a * 2 ^ emin / 2 ^ ulp_exp a)) * 2 ^ ulp_exp a / 2 ^ emin"
proof (cases "a = 0")
  case True
  then show ?thesis
    by (simp add: rne_def rhe_def)
next
  case False
  with assms have "0 < a" by simp
  then show ?thesis
    by (simp add: rne_def Let_def)
qed

lemma ulp_scale:
  assumes "ulp_exp a \<le> emin"
  shows "(2::real) ^ emin / 2 ^ ulp_exp a = 2 ^ (emin - ulp_exp a)"
  using assms by (simp only: power_diff [of "2::real", symmetric] rel_simps simp_thms)

lemma rne_scaled:
  assumes "0 \<le> a" "ulp_exp a \<le> emin"
  shows "rne a = of_int (rhe (a * 2 ^ (emin - ulp_exp a))) / 2 ^ (emin - ulp_exp a)"
proof -
  let ?s = "ulp_exp a"
  have c: "(2::real) ^ emin / 2 ^ ?s = 2 ^ (emin - ?s)"
    using assms(2) by (rule ulp_scale)
  have r1: "a * 2 ^ emin / 2 ^ ?s = a * ((2::real) ^ emin / 2 ^ ?s)"
    by simp
  have r2: "k * 2 ^ ?s / 2 ^ emin = k / ((2::real) ^ emin / 2 ^ ?s)" for k :: real
    by simp
  have "rne a = of_int (rhe (a * 2 ^ emin / 2 ^ ?s)) * 2 ^ ?s / 2 ^ emin"
    using assms(1) by (rule rne_nonneg_eq)
  then show ?thesis
    unfolding r1 r2 c .
qed

lemma rne_between:
  assumes "0 \<le> a" "a < 2 ^ 53"
  shows "of_int g \<le> a \<Longrightarrow> of_int g \<le> rne a"
    and "a \<le> of_int g \<Longrightarrow> rne a \<le> of_int g"
proof -
  have s: "ulp_exp a \<le> emin"
    using ulp_exp_le [of a 0] assms(2) by simp
  define c :: int where "c = 2 ^ (emin - ulp_exp a)"
  have cpos: "0 < (of_int c :: real)"
    by (simp add: c_def)
  have eq: "rne a = of_int (rhe (a * of_int c)) / of_int c"
    using rne_scaled [OF assms(1) s] by (simp add: c_def)
  {
    assume "of_int g \<le> a"
    then have "of_int g * of_int c \<le> a * (of_int c :: real)"
      using cpos by (intro mult_right_mono) simp_all
    then have "of_int (g * c) \<le> a * of_int c"
      by simp
    then have "g * c \<le> rhe (a * of_int c)"
      by (rule rhe_ge)
    then have "(of_int (g * c) :: real) \<le> of_int (rhe (a * of_int c))"
      by (simp only: of_int_le_iff)
    then have "of_int g * of_int c \<le> (of_int (rhe (a * of_int c)) :: real)"
      by simp
    then show "of_int g \<le> rne a"
      unfolding eq using cpos by (simp add: pos_le_divide_eq)
  }
  {
    assume "a \<le> of_int g"
    then have "a * (of_int c :: real) \<le> of_int g * of_int c"
      using cpos by (intro mult_right_mono) simp_all
    then have "a * of_int c \<le> of_int (g * c)"
      by simp
    then have "rhe (a * of_int c) \<le> g * c"
      by (rule rhe_le)
    then have "(of_int (rhe (a * of_int c)) :: real) \<le> of_int (g * c)"
      by (simp only: of_int_le_iff)
    then have "(of_int (rhe (a * of_int c)) :: real) \<le> of_int g * of_int c"
      by simp
    then show "rne a \<le> of_int g"
      unfolding eq using cpos by (simp add: pos_divide_le_eq)
  }
qed

lemma rne_nat:
  assumes "n < 2 ^ 53"
  shows "rne (real n) = real n"
proof -
  have lt: "real n < 2 ^ 53"
    using assms by (metis of_nat_less_iff of_nat_numeral of_nat_power)
  have "of_int (int n) \<le> rne (real n)"
    using lt by (intro rne_between(1)) simp_all
  moreover have "rne (real n) \<le> of_int (int n)"
    using lt by (intro rne_between(2)) simp_all
  ultimately show ?thesis
    by simp
qed

lemma rne_nonneg:
  assumes "0 \<le> a" "a < 2 ^ 53"
  shows "0 \<le> rne a"
  using rne_between(1) [OF assms, of 0] assms(1) by simp

lemma rne_floor:
  assumes "0 \<le> a" "a < 2 ^ 53"
  shows "\<lfloor>rne a\<rfloor> = \<lfloor>a\<rfloor> \<or> \<lfloor>rne a\<rfloor> = \<lfloor>a\<rfloor> + 1"
proof -
  have "of_int \<lfloor>a\<rfloor> \<le> rne a"
    using assms by (intro rne_between(1)) simp_all
  moreover have "a \<le> of_int (\<lfloor>a\<rfloor> + 1)"
    by linarith
  then have "rne a \<le> of_int (\<lfloor>a\<rfloor> + 1)"
    using assms by (intro rne_between(2))
  ultimately show ?thesis
    by (simp add: floor_eq_iff) linarith
qed

lemma ulp_exp_lower:
  assumes "0 \<le> a"
  shows "2 ^ (ulp_exp a + 52) \<le> a * 2 ^ emin \<or> ulp_exp a = 0"
proof (cases "ulp_exp a = 0")
  case True
  then show ?thesis by simp
next
  case False
  let ?X = "\<lfloor>a * 2 ^ emin\<rfloor>"
  have b: "53 < bitlen ?X"
    using False unfolding ulp_exp_def by linarith
  then have pos: "0 < ?X"
    using bitlen_eq_zero_iff [of ?X] by (cases "0 < ?X") simp_all
  have s: "int (ulp_exp a) = bitlen ?X - 53"
    using b unfolding ulp_exp_def by simp
  have "nat (bitlen ?X - 1) = ulp_exp a + 52"
    using s b by linarith
  then have "2 ^ (ulp_exp a + 52) \<le> ?X"
    using bitlen_bounds [OF pos] by simp
  then have "(of_int (2 ^ (ulp_exp a + 52)) :: real) \<le> of_int ?X"
    by (simp only: of_int_le_iff)
  also have "\<dots> \<le> a * 2 ^ emin"
    by simp
  finally show ?thesis
    by simp
qed

lemma rne_strict:
  assumes "0 \<le> a" "a \<le> (1 - 1 / 2 ^ 53) * real n" "0 < n" "n < 2 ^ 53"
  shows "rne a < real n"
proof -
  have n53: "real n < 2 ^ 53"
    using assms(4) by (metis of_nat_less_iff of_nat_numeral of_nat_power)
  have npos: "0 < real n"
    using assms(3) by simp
  have "(1 - 1 / 2 ^ 53) * real n < 1 * real n"
    using npos by (intro mult_strict_right_mono) simp_all
  then have an: "a < real n"
    using assms(2) by simp
  then have a53: "a < 2 ^ 53"
    using n53 by simp
  have s: "ulp_exp a \<le> emin"
    using ulp_exp_le [of a 0] a53 by simp
  define c :: int where "c = 2 ^ (emin - ulp_exp a)"
  have cpos: "0 < (of_int c :: real)"
    by (simp add: c_def)
  have c_eq: "(of_int c :: real) = 2 ^ emin / 2 ^ ulp_exp a"
    using ulp_scale [OF s] by (simp add: c_def)
  have eq: "rne a = of_int (rhe (a * of_int c)) / of_int c"
    using rne_scaled [OF assms(1) s] by (simp add: c_def)
  have big: "2 ^ 52 < real n * of_int c"
  proof -
    from ulp_exp_lower [OF assms(1)] show ?thesis
    proof
      assume "2 ^ (ulp_exp a + 52) \<le> a * 2 ^ emin"
      also have "\<dots> < real n * 2 ^ emin"
        using an by (intro mult_strict_right_mono) simp_all
      finally have "(2::real) ^ ulp_exp a * 2 ^ 52 < real n * 2 ^ emin"
        by (simp only: power_add)
      then have "(2::real) ^ 52 < real n * 2 ^ emin / 2 ^ ulp_exp a"
        by (simp add: pos_less_divide_eq mult.commute)
      then show ?thesis
        unfolding c_eq by simp
    next
      assume z: "ulp_exp a = 0"
      have "(2::real) ^ 52 < 2 ^ emin"
        by (intro power_strict_increasing) (simp_all add: emin_def)
      also have "\<dots> \<le> real n * 2 ^ emin"
        using assms(3) by simp
      finally show ?thesis
        unfolding c_eq z by simp
    qed
  qed
  have "a * of_int c \<le> (1 - 1 / 2 ^ 53) * real n * of_int c"
    using assms(2) cpos by (intro mult_right_mono) simp_all
  also have "\<dots> = real n * of_int c - real n * of_int c / 2 ^ 53"
    by (simp add: algebra_simps)
  also have "\<dots> < real n * of_int c - 1 / 2"
  proof -
    have "1 / 2 < real n * of_int c / 2 ^ 53"
      using big by (simp add: pos_less_divide_eq)
    then show ?thesis
      by linarith
  qed
  finally have "a * of_int c < of_int (int n * c) - 1 / 2"
    by simp
  then have "rhe (a * of_int c) < int n * c"
    by (rule rhe_less)
  then have "(of_int (rhe (a * of_int c)) :: real) < of_int (int n * c)"
    by (simp only: of_int_less_iff)
  then have "(of_int (rhe (a * of_int c)) :: real) < real n * of_int c"
    by simp
  then show ?thesis
    unfolding eq using cpos by (simp add: pos_divide_less_eq)
qed

lemma ulp_exp_upper:
  assumes "0 \<le> a"
  shows "a * 2 ^ emin < 2 ^ (ulp_exp a + 53)"
proof -
  let ?X = "\<lfloor>a * 2 ^ emin\<rfloor>"
  have "bitlen ?X \<le> int (ulp_exp a + 53)"
    unfolding ulp_exp_def by linarith
  then have "?X < 2 ^ nat (int (ulp_exp a + 53))"
    by (simp only: bitlen_le_iff_power)
  then have "?X < 2 ^ (ulp_exp a + 53)"
    by (simp only: nat_int)
  then have "a * 2 ^ emin < of_int (2 ^ (ulp_exp a + 53))"
    by (simp only: floor_less_iff)
  then show ?thesis
    by simp
qed

lemma binary64_below_one:
  assumes "binary64 x" "0 < x" "x < 1"
  shows "x \<le> 1 - 1 / 2 ^ 53"
proof -
  have fx: "rne x = x"
    using assms(1) by (simp add: binary64_def)
  have x0: "0 \<le> x"
    using assms(2) by simp
  have "x * 2 ^ emin < 1 * 2 ^ emin"
    using assms(3) by (intro mult_strict_right_mono) simp_all
  then have "x * 2 ^ emin < of_int (2 ^ nat (int emin))"
    by simp
  then have "\<lfloor>x * 2 ^ emin\<rfloor> < 2 ^ nat (int emin)"
    by (simp only: floor_less_iff)
  then have "bitlen \<lfloor>x * 2 ^ emin\<rfloor> \<le> int emin"
    by (simp only: bitlen_le_iff_power) simp
  then have s53: "ulp_exp x + 53 \<le> emin"
    unfolding ulp_exp_def by (simp add: emin_def)
  then have s: "ulp_exp x \<le> emin"
    by simp
  define c :: int where "c = 2 ^ (emin - ulp_exp x)"
  define k where "k = rhe (x * of_int c)"
  have cpos: "0 < (of_int c :: real)"
    by (simp add: c_def)
  have c_eq: "(of_int c :: real) = 2 ^ emin / 2 ^ ulp_exp x"
    using ulp_scale [OF s] by (simp add: c_def)
  have "rne x = of_int k / of_int c"
    using rne_scaled [OF x0 s] by (simp add: c_def k_def)
  then have xk: "x = of_int k / of_int c"
    using fx by simp
  have "x * 2 ^ emin < 2 ^ ulp_exp x * 2 ^ 53"
    using ulp_exp_upper [OF x0] by (simp only: power_add)
  then have "x * 2 ^ emin / 2 ^ ulp_exp x < 2 ^ 53"
    by (simp add: pos_divide_less_eq mult.commute)
  then have "x * of_int c \<le> of_int (2 ^ 53)"
    unfolding c_eq by simp
  then have k53: "k \<le> 2 ^ 53"
    unfolding k_def by (rule rhe_le)
  have split: "emin - ulp_exp x = 53 \<or> 54 \<le> emin - ulp_exp x"
    using s53 by linarith
  then show ?thesis
  proof
    assume "emin - ulp_exp x = 53"
    then have c53: "c = 2 ^ 53"
      by (simp add: c_def)
    have "of_int k < (of_int c :: real)"
      using xk assms(3) cpos by (simp add: pos_divide_less_eq)
    then have "k < c"
      by (simp only: of_int_less_iff)
    then have "k \<le> c - 1"
      by simp
    then have "(of_int k :: real) \<le> of_int (c - 1)"
      by (simp only: of_int_le_iff)
    then have "x \<le> of_int (c - 1) / of_int c"
      unfolding xk using cpos by (simp add: divide_right_mono)
    then show ?thesis
      unfolding c53 by simp
  next
    assume "54 \<le> emin - ulp_exp x"
    then have "(2::real) ^ 54 \<le> 2 ^ (emin - ulp_exp x)"
      by (intro power_increasing) simp_all
    then have c54: "2 ^ 54 \<le> (of_int c :: real)"
      by (simp add: c_def)
    have "(of_int k :: real) \<le> of_int (2 ^ 53)"
      using k53 by (simp only: of_int_le_iff)
    then have "of_int k * 2 \<le> (2 ^ 54 :: real)"
      by simp
    then have "of_int k * 2 \<le> (of_int c :: real)"
      using c54 by linarith
    then have "x \<le> 1 / 2"
      unfolding xk using cpos by (simp add: pos_divide_le_eq)
    then show ?thesis
      by simp
  qed
qed

lemma rne_eval:
  assumes "0 \<le> a" "2 ^ 52 \<le> a * 2 ^ d / 2 ^ u" "a * 2 ^ d / 2 ^ u < 2 ^ 53" "d \<le> emin + u"
  shows "rne a = of_int (rhe (a * 2 ^ d / 2 ^ u)) * 2 ^ u / 2 ^ d"
proof -
  define s where "s = emin + u - d"
  have "s + d = emin + u"
    using assms(4) by (simp add: s_def)
  then have "(2::real) ^ (s + d) = 2 ^ (emin + u)"
    by simp
  then have pw: "(2::real) ^ s * 2 ^ d = 2 ^ emin * 2 ^ u"
    by (simp only: power_add)
  then have X: "a * 2 ^ emin = a * 2 ^ d / 2 ^ u * 2 ^ s"
    by (simp add: field_simps)
  have "2 ^ 52 * 2 ^ s \<le> a * 2 ^ d / 2 ^ u * (2::real) ^ s"
    using assms(2) by (intro mult_right_mono) simp_all
  then have "(2::real) ^ (52 + s) \<le> a * 2 ^ emin"
    unfolding X by (simp only: power_add)
  then have "of_int (2 ^ (52 + s)) \<le> a * 2 ^ emin"
    by simp
  then have lo: "2 ^ (52 + s) \<le> \<lfloor>a * 2 ^ emin\<rfloor>"
    by (simp only: le_floor_iff)
  have "a * 2 ^ d / 2 ^ u * (2::real) ^ s < 2 ^ 53 * 2 ^ s"
    using assms(3) by (intro mult_strict_right_mono) simp_all
  then have "a * 2 ^ emin < (2::real) ^ (53 + s)"
    unfolding X by (simp only: power_add)
  then have "a * 2 ^ emin < of_int (2 ^ (53 + s))"
    by simp
  then have "\<lfloor>a * 2 ^ emin\<rfloor> < 2 ^ nat (int (53 + s))"
    by (simp only: floor_less_iff nat_int)
  then have hi: "bitlen \<lfloor>a * 2 ^ emin\<rfloor> \<le> int (53 + s)"
    by (simp only: bitlen_le_iff_power) simp
  have "nat (int (53 + s)) - 1 = 52 + s"
    by simp
  then have "2 ^ (nat (int (53 + s)) - 1) \<le> \<lfloor>a * 2 ^ emin\<rfloor>"
    using lo by (simp only:)
  then have "int (53 + s) \<le> bitlen \<lfloor>a * 2 ^ emin\<rfloor>"
    by (simp only: bitlen_ge_iff_power) simp
  with hi have "bitlen \<lfloor>a * 2 ^ emin\<rfloor> = int (53 + s)"
    by simp
  then have s_eq: "ulp_exp a = s"
    by (simp add: ulp_exp_def)
  have q: "(2::real) ^ emin / 2 ^ s = 2 ^ d / 2 ^ u"
    using pw by (simp add: field_simps)
  have r1: "a * 2 ^ emin / 2 ^ s = a * ((2::real) ^ emin / 2 ^ s)"
    by simp
  have r2: "k * 2 ^ s / 2 ^ emin = k / ((2::real) ^ emin / 2 ^ s)" for k :: real
    by simp
  have "rne a = of_int (rhe (a * 2 ^ emin / 2 ^ s)) * 2 ^ s / 2 ^ emin"
    using rne_nonneg_eq [OF assms(1)] unfolding s_eq .
  then have "rne a = of_int (rhe (a * (2 ^ d / 2 ^ u))) / (2 ^ d / 2 ^ u)"
    unfolding r1 r2 q .
  then show ?thesis
    by simp
qed

lemma rne_zero: "rne 0 = 0"
  by (simp add: rne_def)

lemma rne_third_by_three: "rne (6004799503160661 / 2 ^ 54 * 3) = 1"
proof -
  have "rne (6004799503160661 / 2 ^ 54 * 3) =
      of_int (rhe (6004799503160661 / 2 ^ 54 * 3 * 2 ^ 53 / 2 ^ 0)) * 2 ^ 0 / 2 ^ 53"
    by (rule rne_eval) (simp_all add: emin_def)
  also have "rhe (6004799503160661 / 2 ^ 54 * 3 * 2 ^ 53 / 2 ^ 0) = 2 ^ 53"
    by (simp add: rhe_def Let_def)
  finally show ?thesis
    by simp
qed

lemma rne_third: "rne (6004799503160661 / 2 ^ 54) = 6004799503160661 / 2 ^ 54"
proof -
  have "rne (6004799503160661 / 2 ^ 54) =
      of_int (rhe (6004799503160661 / 2 ^ 54 * 2 ^ 54 / 2 ^ 0)) * 2 ^ 0 / 2 ^ 54"
    by (rule rne_eval) (simp_all add: emin_def)
  also have "rhe (6004799503160661 / 2 ^ 54 * 2 ^ 54 / 2 ^ 0) = 6004799503160661"
    by (simp add: rhe_def Let_def)
  finally show ?thesis
    by simp
qed

lemma rne_nine_tenths: "rne (9 / 10) = 8106479329266893 / 2 ^ 53"
proof -
  have "rne (9 / 10) = of_int (rhe (9 / 10 * 2 ^ 53 / 2 ^ 0)) * 2 ^ 0 / 2 ^ 53"
    by (rule rne_eval) (simp_all add: emin_def)
  also have "rhe (9 / 10 * 2 ^ 53 / 2 ^ 0) = 8106479329266893"
    by (simp add: rhe_def Let_def)
  finally show ?thesis
    by simp
qed

lemma rne_verdict_product: "\<lfloor>rne (8106479329266893 / 2 ^ 53 * 20479)\<rfloor> = 18431"
proof -
  have "rne (8106479329266893 / 2 ^ 53 * 20479) =
      of_int (rhe (8106479329266893 / 2 ^ 53 * 20479 * 2 ^ 38 / 2 ^ 0)) * 2 ^ 0 / 2 ^ 38"
    by (rule rne_eval) (simp_all add: emin_def)
  also have "rhe (8106479329266893 / 2 ^ 53 * 20479 * 2 ^ 38 / 2 ^ 0) = 5066302190675559"
    by (simp add: rhe_def Let_def)
  finally have v: "rne (8106479329266893 / 2 ^ 53 * 20479) = 5066302190675559 / 2 ^ 38"
    by simp
  show ?thesis
    unfolding v by simp
qed

lemma emax_gt_53: "(2::real) ^ 53 < 2 ^ emax"
  by (intro power_strict_increasing) (simp_all add: emax_def)

lemma round64_finite:
  assumes "0 \<le> a" "a < 2 ^ 53"
  shows "round64 a = Finite (rne a)"
proof -
  have "a \<le> of_int (2 ^ 53)"
    using assms(2) by simp
  then have "rne a \<le> of_int (2 ^ 53)"
    using assms by (intro rne_between(2))
  then have "rne a < 2 ^ emax"
    using emax_gt_53 by simp
  moreover have "0 \<le> rne a"
    using assms by (rule rne_nonneg)
  moreover have "- ((2::real) ^ emax) < 0"
    by simp
  ultimately show ?thesis
    by (simp add: round64_def Let_def)
qed

lemma float_of_nat_exact:
  assumes "n < 2 ^ 53"
  shows "float_of_nat n = Inr (Finite (real n))"
proof -
  have "real n < 2 ^ 53"
    using assms by (metis of_nat_less_iff of_nat_numeral of_nat_power)
  then have "round64 (real n) = Finite (rne (real n))"
    by (intro round64_finite) simp_all
  then show ?thesis
    using rne_nat [OF assms] by (simp add: float_of_nat_def)
qed

lemma split_idx_finite:
  assumes "0 \<le> x" "x * real (length C) < 2 ^ 53" "length C < 2 ^ 53"
  shows "split_idx (Finite x) C = Inr \<lfloor>rne (x * real (length C))\<rfloor>"
proof -
  let ?a = "x * real (length C)"
  have a0: "0 \<le> ?a"
    using assms(1) by simp
  have "round64 ?a = Finite (rne ?a)"
    using a0 assms(2) by (rule round64_finite)
  moreover have "0 \<le> rne ?a"
    using a0 assms(2) by (rule rne_nonneg)
  ultimately show ?thesis
    using float_of_nat_exact [OF assms(3)] by (simp add: split_idx_def)
qed

lemma unit_product:
  assumes "0 \<le> x" "x < 1" "length C < 2 ^ 53"
  shows "x * real (length C) < 2 ^ 53"
proof -
  have n: "real (length C) < 2 ^ 53"
    using assms(3) by (metis of_nat_less_iff of_nat_numeral of_nat_power)
  have "x * real (length C) \<le> 1 * real (length C)"
    using assms(2) by (intro mult_right_mono) simp_all
  then show ?thesis
    using n by simp
qed

lemma slice_to_from_append: "slice_to xs i @ slice_from xs i = xs"
  by (simp add: slice_to_def slice_from_def)

lemma slice_bound_le: "slice_bound n i \<le> n"
  unfolding slice_bound_def by (cases "i < 0") auto

lemma slice_nonneg:
  assumes "0 \<le> i"
  shows "slice_to xs i = take (nat i) xs" "slice_from xs i = drop (nat i) xs"
  using assms by (simp_all add: slice_to_def slice_from_def slice_bound_def min_def)

lemma splitter_cases:
  "(\<exists>k\<le>length C. splitter C r = Inr (take k C, drop k C)) \<or>
   splitter C r = Inl OverflowError \<or> splitter C r = Inl ValueError"
proof (cases "split_idx r C")
  case (Inr i)
  then have "splitter C r =
      Inr (take (slice_bound (length C) i) C, drop (slice_bound (length C) i) C)"
    by (simp add: splitter_def train_data_def val_data_def slice_to_def slice_from_def)
  then show ?thesis
    using slice_bound_le by blast
next
  case (Inl e)
  have "e = OverflowError \<or> e = ValueError"
  proof (cases "float_of_nat (length C)")
    case l: (Inl e')
    then have "e' = OverflowError"
      by (auto simp: float_of_nat_def split: float64.splits)
    with l Inl show ?thesis
      by (simp add: split_idx_def)
  next
    case r: (Inr n)
    with Inl have "py_int (fmul r n) = Inl e"
      by (simp add: split_idx_def)
    then show ?thesis
      by (cases "fmul r n") auto
  qed
  with Inl show ?thesis
    by (auto simp: splitter_def)
qed

lemma rne_ge_power:
  assumes "2 ^ m \<le> a"
  shows "2 ^ m \<le> rne a"
proof -
  let ?s = "ulp_exp a"
  let ?y = "a * 2 ^ emin / 2 ^ ?s"
  have a0: "0 \<le> a"
    using assms by (meson order_trans zero_le_numeral zero_le_power)
  have eq: "rne a = of_int (rhe ?y) * 2 ^ ?s / 2 ^ emin"
    using a0 by (rule rne_nonneg_eq)
  show ?thesis
  proof (cases "?s \<le> m + emin")
    case True
    define e where "e = m + emin - ?s"
    have "e + ?s = m + emin"
      using True by (simp add: e_def)
    then have "(2::real) ^ (e + ?s) = 2 ^ (m + emin)"
      by simp
    then have pw: "(2::real) ^ e * 2 ^ ?s = 2 ^ m * 2 ^ emin"
      by (simp only: power_add)
    have "2 ^ m * 2 ^ emin \<le> a * (2::real) ^ emin"
      using assms by (intro mult_right_mono) simp_all
    then have "(2::real) ^ e * 2 ^ ?s \<le> a * 2 ^ emin"
      unfolding pw .
    then have "(2::real) ^ e \<le> ?y"
      by (simp add: pos_le_divide_eq)
    then have "of_int (2 ^ e) \<le> ?y"
      by simp
    then have "2 ^ e \<le> rhe ?y"
      by (rule rhe_ge)
    then have "(of_int (2 ^ e) :: real) \<le> of_int (rhe ?y)"
      by (simp only: of_int_le_iff)
    then have "(2::real) ^ e * 2 ^ ?s \<le> of_int (rhe ?y) * 2 ^ ?s"
      by (intro mult_right_mono) simp_all
    then have "(2::real) ^ m * 2 ^ emin \<le> of_int (rhe ?y) * 2 ^ ?s"
      unfolding pw .
    then show ?thesis
      unfolding eq by (simp add: pos_le_divide_eq)
  next
    case False
    then have nz: "?s \<noteq> 0" and big: "m + emin \<le> ?s"
      by simp_all
    from ulp_exp_lower [OF a0] nz have "2 ^ (?s + 52) \<le> a * 2 ^ emin"
      by simp
    then have "(2::real) ^ ?s * 2 ^ 52 \<le> a * 2 ^ emin"
      by (simp only: power_add)
    then have y52: "(2::real) ^ 52 \<le> ?y"
      by (simp add: pos_le_divide_eq mult.commute)
    have "(1::real) \<le> 2 ^ 52"
      by simp
    then have "1 \<le> ?y"
      using y52 by (rule order_trans)
    then have "of_int 1 \<le> ?y"
      by (simp only: of_int_1)
    then have "1 \<le> rhe ?y"
      by (rule rhe_ge)
    then have one: "(1::real) \<le> of_int (rhe ?y)"
      by simp
    have "(2::real) ^ (m + emin) \<le> 2 ^ ?s"
      using big by (intro power_increasing) simp_all
    then have "(2::real) ^ m * 2 ^ emin \<le> 1 * 2 ^ ?s"
      by (simp only: power_add mult_1)
    also have "\<dots> \<le> of_int (rhe ?y) * 2 ^ ?s"
      using one by (intro mult_right_mono) simp_all
    finally show ?thesis
      unfolding eq by (simp add: pos_le_divide_eq)
  qed
qed

lemma round64_overflow:
  assumes "2 ^ emax \<le> a"
  shows "round64 a = PosInf"
  using rne_ge_power [OF assms] by (simp add: round64_def)

lemma power_2_pred:
  assumes "0 < k"
  shows "(2::real) ^ k = 2 * 2 ^ (k - 1)"
  using assms by (cases k) simp_all

lemma split_idx_overflow: "split_idx (Finite (2 ^ (emax - 1))) ''abc'' = Inl OverflowError"
proof -
  have "0 < emax"
    by (simp add: emax_def)
  then have "(2::real) ^ emax = 2 * 2 ^ (emax - 1)"
    by (rule power_2_pred)
  then have "(2::real) ^ emax \<le> 2 ^ (emax - 1) * 3"
    by simp
  then have "round64 (2 ^ (emax - 1) * 3) = PosInf"
    by (rule round64_overflow)
  moreover have "float_of_nat (length ''abc'') = Inr (Finite (real (length ''abc'')))"
    by (rule float_of_nat_exact) simp
  ultimately show ?thesis
    by (simp add: split_idx_def)
qed

lemma rne_half: "rne (1 / 2) = 1 / 2"
proof -
  have "rne (1 / 2) = of_int (rhe (1 / 2 * 2 ^ 53 / 2 ^ 0)) * 2 ^ 0 / 2 ^ 53"
    by (rule rne_eval) (simp_all add: emin_def)
  also have "rhe (1 / 2 * 2 ^ 53 / 2 ^ 0) = 2 ^ 52"
    by (simp add: rhe_def Let_def)
  finally show ?thesis
    by simp
qed

lemma rne_five_halves: "rne (5 / 2) = 5 / 2"
proof -
  have "rne (5 / 2) = of_int (rhe (5 / 2 * 2 ^ 51 / 2 ^ 0)) * 2 ^ 0 / 2 ^ 51"
    by (rule rne_eval) (simp_all add: emin_def)
  also have "rhe (5 / 2 * 2 ^ 51 / 2 ^ 0) = 5 * 2 ^ 50"
    by (simp add: rhe_def Let_def)
  finally show ?thesis
    by simp
qed

lemma rne_nine_halves: "rne (9 / 2) = 9 / 2"
proof -
  have "rne (9 / 2) = of_int (rhe (9 / 2 * 2 ^ 50 / 2 ^ 0)) * 2 ^ 0 / 2 ^ 50"
    by (rule rne_eval) (simp_all add: emin_def)
  also have "rhe (9 / 2 * 2 ^ 50 / 2 ^ 0) = 9 * 2 ^ 49"
    by (simp add: rhe_def)
  finally show ?thesis
    by simp
qed

lemma binary64_small:
  assumes "rne x = x" "\<bar>x\<bar> \<le> 1"
  shows "binary64 x"
proof -
  have "(1::real) < 2 ^ emax"
    by (rule one_less_power) (simp_all add: emax_def)
  then have "\<bar>x\<bar> < 2 ^ emax"
    using assms(2) by linarith
  then show ?thesis
    using assms(1) by (simp add: binary64_def)
qed

lemma rne_nonneg_all:
  assumes "0 \<le> a"
  shows "0 \<le> rne a"
proof -
  have "0 \<le> a * 2 ^ emin / 2 ^ ulp_exp a"
    using assms by simp
  then have "of_int 0 \<le> a * 2 ^ emin / 2 ^ ulp_exp a"
    by simp
  then have "0 \<le> rhe (a * 2 ^ emin / 2 ^ ulp_exp a)"
    by (rule rhe_ge)
  then show ?thesis
    unfolding rne_nonneg_eq [OF assms] by simp
qed

lemma rne_le_power:
  assumes "0 \<le> a" "a \<le> 2 ^ m"
  shows "rne a \<le> 2 ^ m"
proof -
  let ?s = "ulp_exp a"
  let ?y = "a * 2 ^ emin / 2 ^ ?s"
  have eq: "rne a = of_int (rhe ?y) * 2 ^ ?s / 2 ^ emin"
    using assms(1) by (rule rne_nonneg_eq)
  have "(2::real) ^ m < 2 ^ (53 + m)"
    by (intro power_strict_increasing) simp_all
  with assms(2) have "a < 2 ^ (53 + m)"
    by (rule le_less_trans)
  then have "?s \<le> emin + m"
    by (rule ulp_exp_le)
  define e where "e = m + emin - ?s"
  have "e + ?s = m + emin"
    using \<open>?s \<le> emin + m\<close> by (simp add: e_def)
  then have "(2::real) ^ (e + ?s) = 2 ^ (m + emin)"
    by simp
  then have pw: "(2::real) ^ e * 2 ^ ?s = 2 ^ m * 2 ^ emin"
    by (simp only: power_add)
  have "a * (2::real) ^ emin \<le> 2 ^ m * 2 ^ emin"
    using assms(2) by (intro mult_right_mono) simp_all
  then have "a * 2 ^ emin \<le> (2::real) ^ e * 2 ^ ?s"
    unfolding pw .
  then have "?y \<le> (2::real) ^ e"
    by (simp add: pos_divide_le_eq)
  then have "?y \<le> of_int (2 ^ e)"
    by simp
  then have "rhe ?y \<le> 2 ^ e"
    by (rule rhe_le)
  then have "(of_int (rhe ?y) :: real) \<le> of_int (2 ^ e)"
    by (simp only: of_int_le_iff)
  then have "of_int (rhe ?y) * 2 ^ ?s \<le> (2::real) ^ e * 2 ^ ?s"
    by (intro mult_right_mono) simp_all
  then have "of_int (rhe ?y) * 2 ^ ?s \<le> (2::real) ^ m * 2 ^ emin"
    unfolding pw .
  then show ?thesis
    unfolding eq by (simp add: pos_divide_le_eq)
qed

lemma round64_finite_below:
  assumes "0 \<le> a" "a \<le> 2 ^ m" "m < emax"
  shows "round64 a = Finite (rne a) \<and> 0 \<le> rne a \<and> rne a \<le> 2 ^ m"
proof -
  have le: "rne a \<le> 2 ^ m"
    using assms(1,2) by (rule rne_le_power)
  have "(2::real) ^ m < 2 ^ emax"
    using assms(3) by (intro power_strict_increasing) simp_all
  with le have "rne a < 2 ^ emax"
    by (rule le_less_trans)
  moreover have nn: "0 \<le> rne a"
    using assms(1) by (rule rne_nonneg_all)
  moreover have "- ((2::real) ^ emax) < 0"
    by simp
  ultimately have "round64 a = Finite (rne a)"
    by (simp add: round64_def Let_def)
  with nn le show ?thesis
    by simp
qed

lemma split_idx_succeeds:
  assumes "0 \<le> x" "x \<le> 1" "length C < 2 ^ 63"
  shows "\<exists>i. split_idx (Finite x) C = Inr i"
proof -
  let ?n = "real (length C)"
  have m: "(63::nat) < emax"
    by (simp add: emax_def)
  have "?n < 2 ^ 63"
    using assms(3) by (metis of_nat_less_iff of_nat_numeral of_nat_power)
  then have n63: "?n \<le> 2 ^ 63"
    by simp
  have fn: "round64 ?n = Finite (rne ?n) \<and> 0 \<le> rne ?n \<and> rne ?n \<le> 2 ^ 63"
    using n63 m by (intro round64_finite_below) simp_all
  then have conv: "float_of_nat (length C) = Inr (Finite (rne ?n))"
    by (simp add: float_of_nat_def)
  have "x * rne ?n \<le> 1 * rne ?n"
    using assms(2) fn by (intro mult_right_mono) simp_all
  then have "x * rne ?n \<le> 2 ^ 63"
    using fn by simp
  moreover have "0 \<le> x * rne ?n"
    using assms(1) fn by simp
  ultimately have "round64 (x * rne ?n) = Finite (rne (x * rne ?n))"
    using m by (intro round64_finite_below [THEN conjunct1])
  then show ?thesis
    using conv by (simp add: split_idx_def)
qed

section \<open>Properties of the split\<close>

lemma split_idx_unit:
  assumes "0 < x" "x < 1" "length C < 2 ^ 53"
  shows "split_idx (Finite x) C = Inr \<lfloor>rne (x * real (length C))\<rfloor>"
    and "0 \<le> \<lfloor>rne (x * real (length C))\<rfloor>"
    and "\<lfloor>rne (x * real (length C))\<rfloor> \<le> int (length C)"
    and "\<lfloor>rne (x * real (length C))\<rfloor> = \<lfloor>x * real (length C)\<rfloor> \<or>
         \<lfloor>rne (x * real (length C))\<rfloor> = \<lfloor>x * real (length C)\<rfloor> + 1"
proof -
  let ?a = "x * real (length C)"
  have x0: "0 \<le> x"
    using assms(1) by simp
  have a0: "0 \<le> ?a"
    using x0 by simp
  have a53: "?a < 2 ^ 53"
    using x0 assms(2,3) by (rule unit_product)
  show "split_idx (Finite x) C = Inr \<lfloor>rne ?a\<rfloor>"
    using x0 a53 assms(3) by (rule split_idx_finite)
  have "0 \<le> rne ?a"
    using a0 a53 by (rule rne_nonneg)
  then show "0 \<le> \<lfloor>rne ?a\<rfloor>"
    by simp
  have "?a \<le> 1 * real (length C)"
    using assms(2) by (intro mult_right_mono) simp_all
  then have "?a \<le> of_int (int (length C))"
    by simp
  then have "rne ?a \<le> of_int (int (length C))"
    using a0 a53 by (intro rne_between(2))
  then show "\<lfloor>rne ?a\<rfloor> \<le> int (length C)"
    by (simp add: floor_le_iff)
  show "\<lfloor>rne ?a\<rfloor> = \<lfloor>?a\<rfloor> \<or> \<lfloor>rne ?a\<rfloor> = \<lfloor>?a\<rfloor> + 1"
    using a0 a53 by (rule rne_floor)
qed

lemma splitter_of_idx:
  assumes "split_idx r C = Inr i"
  shows "splitter C r = Inr (train_data C i, val_data C i)"
  using assms by (simp add: splitter_def)

lemma train_val_append: "train_data C i @ val_data C i = C"
  by (simp add: train_data_def val_data_def slice_to_from_append)

lemma splitter_append:
  assumes "splitter C r = Inr (tr, va)"
  shows "tr @ va = C"
  using assms by (auto simp: splitter_def train_val_append split: sum.splits)

lemma split_idx_half_abcde: "split_idx (Finite (1 / 2)) ''abcde'' = Inr 2"
proof -
  have "split_idx (Finite (1 / 2)) ''abcde'' = Inr \<lfloor>rne (1 / 2 * real (length ''abcde''))\<rfloor>"
    by (rule split_idx_finite) simp_all
  then show ?thesis
    by (simp add: rne_five_halves)
qed

text \<open>
  C1. For every corpus and every ratio in \<open>(0,1)\<close>, the training part followed by the
  validation part is the corpus again: no character is dropped or duplicated. The
  concatenation holds for every split index, hence for every float ratio for which
  the cell computes the split at all; and for a ratio in \<open>(0,1)\<close> the cell does compute
  it (for every corpus shorter than \<open>2^63\<close> characters, the longest a Python string
  can be).
\<close>

theorem split_concat:
  "(\<forall>i. train_data C i @ val_data C i = C) \<and>
   (\<forall>r tr va. splitter C r = Inr (tr, va) \<longrightarrow> tr @ va = C) \<and>
   (0 < x \<and> x < 1 \<and> length C < 2 ^ 63 \<longrightarrow>
      (\<exists>i. split_idx (Finite x) C = Inr i \<and>
           splitter C (Finite x) = Inr (train_data C i, val_data C i) \<and>
           train_data C i @ val_data C i = C))"
proof (intro conjI allI impI)
  fix i
  show "train_data C i @ val_data C i = C"
    by (rule train_val_append)
next
  fix r tr va
  assume "splitter C r = Inr (tr, va)"
  then show "tr @ va = C"
    by (rule splitter_append)
next
  assume h: "0 < x \<and> x < 1 \<and> length C < 2 ^ 63"
  then obtain i where idx: "split_idx (Finite x) C = Inr i"
    using split_idx_succeeds [of x C] by auto
  then have "splitter C (Finite x) = Inr (train_data C i, val_data C i)"
    by (rule splitter_of_idx)
  with idx show "\<exists>i. split_idx (Finite x) C = Inr i \<and>
      splitter C (Finite x) = Inr (train_data C i, val_data C i) \<and>
      train_data C i @ val_data C i = C"
    using train_val_append by blast
qed

theorem split_concat_witness:
  "(0::real) < 1 / 2 \<and> (1 / 2 :: real) < 1 \<and> length ''abcde'' < 2 ^ 63 \<and>
   split_idx (Finite (1 / 2)) ''abcde'' = Inr 2 \<and>
   splitter ''abcde'' (Finite (1 / 2)) = Inr (''ab'', ''cde'') \<and>
   train_data ''abcde'' 2 @ val_data ''abcde'' 2 = ''abcde''"
  using split_concat [of "''abcde''" "1 / 2"] split_idx_half_abcde
  by (simp add: train_data_def val_data_def slice_to_def slice_from_def slice_bound_def)

lemma split_idx_abc_three_halves: "split_idx (Finite (3 / 2)) ''abc'' = Inr 4"
proof -
  have "split_idx (Finite (3 / 2)) ''abc'' = Inr \<lfloor>rne (3 / 2 * real (length ''abc''))\<rfloor>"
    by (rule split_idx_finite) simp_all
  then show ?thesis
    by (simp add: rne_nine_halves)
qed

lemma split_idx_empty: "split_idx (Finite (1 / 2)) ([] :: string) = Inr 0"
proof -
  have "split_idx (Finite (1 / 2)) ([] :: string) =
      Inr \<lfloor>rne (1 / 2 * real (length ([] :: string)))\<rfloor>"
    by (rule split_idx_finite) simp_all
  then show ?thesis
    by (simp add: rne_zero)
qed

lemma split_idx_half_a: "split_idx (Finite (1 / 2)) ''a'' = Inr 0"
proof -
  have "split_idx (Finite (1 / 2)) ''a'' = Inr \<lfloor>rne (1 / 2 * real (length ''a''))\<rfloor>"
    by (rule split_idx_finite) simp_all
  then show ?thesis
    by (simp add: rne_half)
qed

text \<open>
  C4 (as stated, refuted). The claim says that the split fails with an
  invalid-argument error when the ratio is outside \<open>(0,1)\<close> or the corpus is empty.
  The cell checks nothing: at ratio \<open>1.5\<close> and three characters the product is \<open>4.5\<close>,
  the index is \<open>int(4.5) = 4\<close>, the slices clamp it, and the result is the whole text
  and an empty validation part; an empty corpus gives two empty parts.
\<close>

theorem splitter_no_validation_counterexample:
  "\<not> ((0::real) < 3 / 2 \<and> (3 / 2 :: real) < 1) \<and>
   splitter ''abc'' (Finite (3 / 2)) = Inr (''abc'', '''') \<and>
   splitter ''abc'' (Finite (3 / 2)) \<noteq> Inl InvalidArgument \<and>
   splitter ([] :: string) (Finite (1 / 2)) = Inr ([], []) \<and>
   splitter ([] :: string) (Finite (1 / 2)) \<noteq> Inl InvalidArgument"
  using splitter_of_idx [OF split_idx_abc_three_halves] splitter_of_idx [OF split_idx_empty]
  by (simp add: train_data_def val_data_def slice_to_def slice_from_def slice_bound_def)

text \<open>
  C4 (amended). The split validates neither the ratio nor the corpus, and it never
  fails with an invalid-argument error. Whenever \<open>int(train_ratio * len(corpus))\<close> is
  computed, it returns the prefix and the remaining suffix of the corpus at some cut
  \<open>k \<le> len(corpus)\<close>, also for a ratio outside \<open>(0,1)\<close> and for an empty corpus; its
  only failures are the \<open>OverflowError\<close> and the \<open>ValueError\<close> that \<open>int\<close> raises on an
  infinite or \<open>nan\<close> product (and the \<open>OverflowError\<close> of a length too large for a
  float). For every ratio in \<open>(0,1)\<close> and every corpus shorter than \<open>2^63\<close> characters,
  empty or not, it succeeds.
\<close>

theorem splitter_outcomes:
  "splitter C r \<noteq> Inl InvalidArgument \<and>
   ((\<exists>k\<le>length C. splitter C r = Inr (take k C, drop k C)) \<or>
    splitter C r = Inl OverflowError \<or> splitter C r = Inl ValueError) \<and>
   (0 < x \<and> x < 1 \<and> length C < 2 ^ 63 \<longrightarrow>
      (\<exists>k\<le>length C. splitter C (Finite x) = Inr (take k C, drop k C)))"
proof (intro conjI impI)
  show cases: "(\<exists>k\<le>length C. splitter C r = Inr (take k C, drop k C)) \<or>
      splitter C r = Inl OverflowError \<or> splitter C r = Inl ValueError"
    by (rule splitter_cases)
  then show "splitter C r \<noteq> Inl InvalidArgument"
    by auto
next
  assume h: "0 < x \<and> x < 1 \<and> length C < 2 ^ 63"
  then obtain i where "split_idx (Finite x) C = Inr i"
    using split_idx_succeeds [of x C] by auto
  then have "splitter C (Finite x) =
      Inr (take (slice_bound (length C) i) C, drop (slice_bound (length C) i) C)"
    by (simp add: splitter_def train_data_def val_data_def slice_to_def slice_from_def)
  then show "\<exists>k\<le>length C. splitter C (Finite x) = Inr (take k C, drop k C)"
    using slice_bound_le by blast
qed

theorem splitter_outcomes_witness:
  "splitter ''abcde'' (Finite (1 / 2)) = Inr (''ab'', ''cde'') \<and>
   (\<exists>k\<le>length ''abcde''.
      splitter ''abcde'' (Finite (1 / 2)) = Inr (take k ''abcde'', drop k ''abcde'')) \<and>
   splitter ''abc'' (Finite (2 ^ (emax - 1))) = Inl OverflowError \<and>
   splitter ''abc'' PosInf = Inl OverflowError \<and>
   splitter ''abc'' NaN = Inl ValueError"
proof -
  have "splitter ''abcde'' (Finite (1 / 2)) = Inr (''ab'', ''cde'')"
    using splitter_of_idx [OF split_idx_half_abcde]
    by (simp add: train_data_def val_data_def slice_to_def slice_from_def slice_bound_def)
  moreover have "\<exists>k\<le>length ''abcde''.
      splitter ''abcde'' (Finite (1 / 2)) = Inr (take k ''abcde'', drop k ''abcde'')"
    using splitter_outcomes [of "''abcde''" "Finite (1 / 2)" "1 / 2"] by simp
  moreover have "splitter ''abc'' (Finite (2 ^ (emax - 1))) = Inl OverflowError"
    using split_idx_overflow by (simp add: splitter_def)
  moreover have three: "float_of_nat (length ''abc'') = Inr (Finite (real (length ''abc'')))"
    by (rule float_of_nat_exact) simp
  then have "splitter ''abc'' PosInf = Inl OverflowError"
    by (simp add: splitter_def split_idx_def)
  moreover have "splitter ''abc'' NaN = Inl ValueError"
    using three by (simp add: splitter_def split_idx_def)
  ultimately show ?thesis
    by simp
qed

text \<open>
  C5 (as stated, refuted). The claim says that the training text is the prefix of
  length \<open>floor(r * len(corpus))\<close>. The cell rounds the product to binary64 before
  \<open>int\<close>: for the float \<open>0.3333333333333333\<close> (which is \<open>6004799503160661 / 2^54\<close>) and
  the corpus \<open>abc\<close> the exact product is \<open>1 - 2^-54\<close>, with floor 0, but the binary64
  product is \<open>1.0\<close>, so the training text is \<open>a\<close>, not the empty prefix.
\<close>

theorem split_prefix_float_counterexample:
  "(0::real) < 6004799503160661 / 2 ^ 54 \<and> (6004799503160661 / 2 ^ 54 :: real) < 1 \<and>
   binary64 (6004799503160661 / 2 ^ 54) \<and>
   splitter ''abc'' (Finite (6004799503160661 / 2 ^ 54)) = Inr (''a'', ''bc'') \<and>
   \<lfloor>6004799503160661 / 2 ^ 54 * real (length ''abc'')\<rfloor> = 0 \<and>
   take (nat \<lfloor>6004799503160661 / 2 ^ 54 * real (length ''abc'')\<rfloor>) ''abc'' \<noteq> ''a''"
proof -
  have b: "binary64 (6004799503160661 / 2 ^ 54)"
    using rne_third by (rule binary64_small) simp
  have "split_idx (Finite (6004799503160661 / 2 ^ 54)) ''abc'' =
      Inr \<lfloor>rne (6004799503160661 / 2 ^ 54 * real (length ''abc''))\<rfloor>"
    by (rule split_idx_finite) simp_all
  also have "rne (6004799503160661 / 2 ^ 54 * real (length ''abc'')) = 1"
    using rne_third_by_three by simp
  finally have "split_idx (Finite (6004799503160661 / 2 ^ 54)) ''abc'' = Inr 1"
    by simp
  then have "splitter ''abc'' (Finite (6004799503160661 / 2 ^ 54)) = Inr (''a'', ''bc'')"
    using splitter_of_idx [of "Finite (6004799503160661 / 2 ^ 54)" "''abc''" 1]
    by (simp add: train_data_def val_data_def slice_to_def slice_from_def slice_bound_def)
  moreover have "\<lfloor>6004799503160661 / 2 ^ 54 * real (length ''abc'')\<rfloor> = 0"
    by simp
  ultimately show ?thesis
    using b by simp
qed

lemma train_ratio_value: "train_ratio = Finite (8106479329266893 / 2 ^ 53)"
proof -
  have "round64 (9 / 10) = Finite (rne (9 / 10))"
    by (rule round64_finite) simp_all
  then show ?thesis
    by (simp add: train_ratio_def rne_nine_tenths)
qed

lemma split_idx_verdict:
  assumes "length C = 20479"
  shows "split_idx train_ratio C = Inr 18431"
proof -
  have "split_idx (Finite (8106479329266893 / 2 ^ 53)) C =
      Inr \<lfloor>rne (8106479329266893 / 2 ^ 53 * real (length C))\<rfloor>"
    using assms by (intro split_idx_finite) simp_all
  then show ?thesis
    unfolding train_ratio_value assms using rne_verdict_product by simp
qed

text \<open>
  C5 (amended). For every corpus shorter than \<open>2^53\<close> characters and every ratio \<open>r\<close>
  in \<open>(0,1)\<close>, the training text is the prefix of the corpus of length \<open>floor(p)\<close>, where
  \<open>p\<close> is the binary64 product of \<open>r\<close> and the length, and the validation text is the
  remaining suffix; \<open>floor(p)\<close> is \<open>floor(r * len(corpus))\<close> or one more. For a corpus of
  20,479 characters and the ratio \<open>0.90\<close> the training text has 18,431 characters and
  the validation text 2,048 (the lengths the notebook prints).
\<close>

theorem split_prefix_suffix:
  assumes "0 < x" "x < 1" "length C < 2 ^ 53"
  shows "(\<exists>k. split_idx (Finite x) C = Inr k \<and>
            k = \<lfloor>rne (x * real (length C))\<rfloor> \<and>
            (k = \<lfloor>x * real (length C)\<rfloor> \<or> k = \<lfloor>x * real (length C)\<rfloor> + 1) \<and>
            splitter C (Finite x) = Inr (take (nat k) C, drop (nat k) C)) \<and>
         (length C = 20479 \<longrightarrow>
            splitter C train_ratio = Inr (take 18431 C, drop 18431 C) \<and>
            length (take 18431 C) = 18431 \<and> length (drop 18431 C) = 2048)"
proof (intro conjI impI)
  let ?k = "\<lfloor>rne (x * real (length C))\<rfloor>"
  have idx: "split_idx (Finite x) C = Inr ?k"
    using assms by (rule split_idx_unit(1))
  have k0: "0 \<le> ?k"
    using assms by (rule split_idx_unit(2))
  have near: "?k = \<lfloor>x * real (length C)\<rfloor> \<or> ?k = \<lfloor>x * real (length C)\<rfloor> + 1"
    using assms by (rule split_idx_unit(4))
  have "splitter C (Finite x) = Inr (train_data C ?k, val_data C ?k)"
    using idx by (rule splitter_of_idx)
  then have "splitter C (Finite x) = Inr (take (nat ?k) C, drop (nat ?k) C)"
    using slice_nonneg [OF k0, of C] by (simp add: train_data_def val_data_def)
  with idx near show "\<exists>k. split_idx (Finite x) C = Inr k \<and>
            k = \<lfloor>rne (x * real (length C))\<rfloor> \<and>
            (k = \<lfloor>x * real (length C)\<rfloor> \<or> k = \<lfloor>x * real (length C)\<rfloor> + 1) \<and>
            splitter C (Finite x) = Inr (take (nat k) C, drop (nat k) C)"
    by blast
next
  assume len: "length C = 20479"
  then have "split_idx train_ratio C = Inr 18431"
    by (rule split_idx_verdict)
  then have "splitter C train_ratio = Inr (train_data C 18431, val_data C 18431)"
    by (rule splitter_of_idx)
  then show "splitter C train_ratio = Inr (take 18431 C, drop 18431 C)"
    using slice_nonneg [of 18431 C] by (simp add: train_data_def val_data_def)
  show "length (take 18431 C) = 18431"
    using len by simp
  show "length (drop 18431 C) = 2048"
    using len by simp
qed

theorem split_prefix_suffix_witness:
  "(0::real) < 1 / 2 \<and> (1 / 2 :: real) < 1 \<and> length ''abcde'' < 2 ^ 53 \<and>
   split_idx (Finite (1 / 2)) ''abcde'' = Inr 2 \<and>
   \<lfloor>1 / 2 * real (length ''abcde'')\<rfloor> = 2 \<and>
   splitter ''abcde'' (Finite (1 / 2)) = Inr (take 2 ''abcde'', drop 2 ''abcde'') \<and>
   length (replicate 20479 CHR ''a'') = 20479 \<and>
   splitter (replicate 20479 CHR ''a'') train_ratio =
     Inr (replicate 18431 CHR ''a'', replicate 2048 CHR ''a'')"
  using split_prefix_suffix [of "1 / 2" "''abcde''"] split_idx_half_abcde
    split_prefix_suffix [of "1 / 2" "replicate 20479 CHR ''a''"]
  by simp

text \<open>
  C6 (as stated, refuted). The claim says \<open>0 < split_idx < len(corpus)\<close> for every
  ratio in \<open>(0,1)\<close>. For a corpus of one character and ratio \<open>0.5\<close> the index is
  \<open>int(0.5) = 0\<close>, and for an empty corpus it is \<open>0 = len(corpus)\<close>.
\<close>

theorem split_idx_invariant_counterexample:
  "(0::real) < 1 / 2 \<and> (1 / 2 :: real) < 1 \<and> binary64 (1 / 2) \<and>
   split_idx (Finite (1 / 2)) ''a'' = Inr 0 \<and>
   \<not> ((0::int) < 0 \<and> (0::int) < int (length ''a'')) \<and>
   split_idx (Finite (1 / 2)) ([] :: string) = Inr 0 \<and>
   \<not> ((0::int) < 0 \<and> (0::int) < int (length ([] :: string)))"
proof -
  have "binary64 (1 / 2)"
    using rne_half by (rule binary64_small) simp
  then show ?thesis
    using split_idx_half_a split_idx_empty by simp
qed

text \<open>
  C6 (amended). For every float ratio \<open>r\<close> in \<open>(0,1)\<close> and every corpus shorter than
  \<open>2^53\<close> characters, \<open>0 < split_idx < len(corpus)\<close> holds whenever
  \<open>r * len(corpus) \<ge> 1\<close>; without that condition, \<open>0 \<le> split_idx \<le> len(corpus)\<close>, with
  \<open>split_idx < len(corpus)\<close> for a corpus that is not empty.
\<close>

theorem split_idx_bounds:
  assumes "binary64 x" "0 < x" "x < 1" "length C < 2 ^ 53"
  shows "\<exists>i. split_idx (Finite x) C = Inr i \<and> 0 \<le> i \<and> i \<le> int (length C) \<and>
           (C \<noteq> [] \<longrightarrow> i < int (length C)) \<and>
           (1 \<le> x * real (length C) \<longrightarrow> 0 < i \<and> i < int (length C))"
proof -
  let ?a = "x * real (length C)"
  let ?i = "\<lfloor>rne ?a\<rfloor>"
  have idx: "split_idx (Finite x) C = Inr ?i"
    using assms(2-4) by (rule split_idx_unit(1))
  have lo: "0 \<le> ?i"
    using assms(2-4) by (rule split_idx_unit(2))
  have hi: "?i \<le> int (length C)"
    using assms(2-4) by (rule split_idx_unit(3))
  have a0: "0 \<le> ?a"
    using assms(2) by simp
  have a53: "?a < 2 ^ 53"
    using assms(2-4) by (intro unit_product) simp_all
  have strict: "?i < int (length C)" if ne: "C \<noteq> []"
  proof -
    have "x \<le> 1 - 1 / 2 ^ 53"
      using assms(1-3) by (rule binary64_below_one)
    then have "?a \<le> (1 - 1 / 2 ^ 53) * real (length C)"
      by (intro mult_right_mono) simp_all
    moreover have "0 < length C"
      using ne by simp
    ultimately have "rne ?a < real (length C)"
      using a0 assms(4) by (intro rne_strict)
    moreover have "of_int ?i \<le> rne ?a"
      by (rule of_int_floor_le)
    ultimately have "(of_int ?i :: real) < of_int (int (length C))"
      by simp linarith
    then show ?thesis
      by (simp only: of_int_less_iff)
  qed
  have pos: "0 < ?i \<and> ?i < int (length C)" if h: "1 \<le> ?a"
  proof -
    have "C \<noteq> []"
      using h by auto
    then have "?i < int (length C)"
      by (rule strict)
    moreover have "of_int 1 \<le> rne ?a"
      using a0 a53 h by (intro rne_between(1)) simp_all
    then have "1 \<le> ?i"
      by (simp add: le_floor_iff)
    ultimately show ?thesis
      by simp
  qed
  from idx lo hi strict pos show ?thesis
    by blast
qed

theorem split_idx_bounds_witness:
  "binary64 (1 / 2) \<and> (0::real) < 1 / 2 \<and> (1 / 2 :: real) < 1 \<and> length ''abcde'' < 2 ^ 53 \<and>
   (1::real) \<le> 1 / 2 * real (length ''abcde'') \<and>
   split_idx (Finite (1 / 2)) ''abcde'' = Inr 2 \<and>
   (0::int) < 2 \<and> (2::int) < int (length ''abcde'')"
proof -
  have b: "binary64 (1 / 2)"
    using rne_half by (rule binary64_small) simp
  have "\<exists>i. split_idx (Finite (1 / 2)) ''abcde'' = Inr i \<and> 0 < i \<and> i < int (length ''abcde'')"
    using split_idx_bounds [OF b, of "''abcde''"] by auto
  then show ?thesis
    using b split_idx_half_abcde by simp
qed

section \<open>Properties of the text/token conversion\<close>

lemma squeeze0_unsqueeze0: "squeeze0 (unsqueeze0 t) = t"
  by (simp add: unsqueeze0_def)

lemma scalar_values_map_Scalar: "scalar_values (map Scalar ns) = Inr ns"
  by (induction ns) simp_all

lemma tolist_torch_tensor: "tolist (torch_tensor ns) = Inr ns"
  by (simp add: torch_tensor_def scalar_values_map_Scalar)

text \<open>
  C9. For every text that the tokenizer round-trips (its encoding, with the
  end-of-text marker allowed, decodes to the text again), \<open>token_ids_to_text\<close> of
  \<open>text_to_token_ids\<close> of the text is the text: the batch dimension added by
  \<open>unsqueeze(0)\<close> is removed again by \<open>squeeze(0)\<close>.
\<close>

theorem text_token_roundtrip:
  assumes "encode tok text [''<|endoftext|>''] = Inr ids"
    and "decode tok ids = Inr text"
  shows "text_to_token_ids text (Some tok) = Inr (unsqueeze0 (torch_tensor ids)) \<and>
         squeeze0 (unsqueeze0 (torch_tensor ids)) = torch_tensor ids \<and>
         token_ids_to_text (unsqueeze0 (torch_tensor ids)) (Some tok) = Inr text"
  using assms
  by (simp add: text_to_token_ids_def token_ids_to_text_def squeeze0_unsqueeze0
      tolist_torch_tensor)

theorem text_token_roundtrip_witness:
  "text_to_token_ids ''Hi<|endoftext|>''
      (Some \<lparr>encode = (\<lambda>s allowed. Inr (map of_char s)),
             decode = (\<lambda>ns. Inr (map char_of ns))\<rparr>)
     = Inr (Tensor [Tensor (map Scalar
         [72, 105, 60, 124, 101, 110, 100, 111, 102, 116, 101, 120, 116, 124, 62])]) \<and>
   token_ids_to_text (Tensor [Tensor (map Scalar
         [72, 105, 60, 124, 101, 110, 100, 111, 102, 116, 101, 120, 116, 124, 62])])
      (Some \<lparr>encode = (\<lambda>s allowed. Inr (map of_char s)),
             decode = (\<lambda>ns. Inr (map char_of ns))\<rparr>)
     = Inr ''Hi<|endoftext|>''"
proof -
  let ?tok = "\<lparr>encode = (\<lambda>s allowed. Inr (map of_char s)),
               decode = (\<lambda>ns. Inr (map char_of ns))\<rparr>"
  let ?ids = "[72, 105, 60, 124, 101, 110, 100, 111, 102, 116, 101, 120, 116, 124, 62] :: nat list"
  have e: "encode ?tok ''Hi<|endoftext|>'' [''<|endoftext|>''] = Inr ?ids"
    by simp
  have "map char_of ?ids = ''Hi<|endoftext|>''"
    by code_simp
  then have d: "decode ?tok ?ids = Inr ''Hi<|endoftext|>''"
    by simp
  show ?thesis
    using text_token_roundtrip [OF e d]
    by (simp only: unsqueeze0_def torch_tensor_def)
qed

text \<open>
  C10. No default tokenizer is ever created: without a tokenizer (\<open>None\<close>), both
  \<open>text_to_token_ids\<close> and \<open>token_ids_to_text\<close> fail for every input, so each
  returns a result only when a tokenizer is supplied.
\<close>

theorem no_default_tokenizer:
  "text_to_token_ids text None = Inl AttributeError \<and>
   token_ids_to_text token_ids None = Inl AttributeError \<and>
   (\<forall>t. text_to_token_ids text None \<noteq> Inr t) \<and>
   (\<forall>s. token_ids_to_text token_ids None \<noteq> Inr s)"
  by (simp add: text_to_token_ids_def token_ids_to_text_def)

theorem no_default_tokenizer_witness:
  "text_to_token_ids ''Every effort moves you'' None = Inl AttributeError \<and>
   token_ids_to_text (Tensor [Tensor [Scalar 40, Scalar 367] ]) None = Inl AttributeError"
  using no_default_tokenizer [of "''Every effort moves you''" "Tensor [Tensor [Scalar 40, Scalar 367] ]"]
  by simp

section \<open>Properties of the windowed batch builder\<close>

lemma window_length:
  assumes "b \<le> length tokens"
  shows "length (window tokens a b) = b - a"
  using assms by (simp add: window_def)

lemma window_nth:
  assumes "a + k < b" "b \<le> length tokens"
  shows "window tokens a b ! k = tokens ! (a + k)"
  using assms by (simp add: window_def)

lemma window_pair_shift:
  assumes "i + L + 1 \<le> length tokens" "k + 1 < L"
  shows "window tokens (i + 1) (i + L + 1) ! k = window tokens i (i + L) ! (k + 1)"
proof -
  have "window tokens (i + 1) (i + L + 1) ! k = tokens ! (i + 1 + k)"
    using assms by (intro window_nth) simp_all
  moreover have "window tokens i (i + L) ! (k + 1) = tokens ! (i + (k + 1))"
    using assms by (intro window_nth) simp_all
  ultimately show ?thesis
    by (simp add: add.assoc add.commute)
qed

lemma window_pair_last:
  assumes "i + L + 1 \<le> length tokens" "0 < L"
  shows "window tokens (i + 1) (i + L + 1) ! (L - 1) = tokens ! (i + L)"
proof -
  have "window tokens (i + 1) (i + L + 1) ! (L - 1) = tokens ! (i + 1 + (L - 1))"
    using assms by (intro window_nth) simp_all
  then show ?thesis
    using assms by simp
qed

lemma filter_upt_no_multiple:
  assumes "S dvd i" "i < a" "b \<le> i + S"
  shows "filter (\<lambda>k. S dvd k \<and> P k) [a..<b] = []"
proof -
  have "\<not> S dvd k" if "a \<le> k" "k < b" for k
  proof
    assume "S dvd k"
    then have "S dvd (k - i)"
      using assms(1) by (rule dvd_diff_nat)
    moreover have "0 < k - i" "k - i < S"
      using assms that by simp_all
    ultimately show False
      using nat_dvd_not_less by blast
  qed
  then show ?thesis
    by (auto simp: filter_empty_conv)
qed

lemma filter_upt_too_long:
  assumes "n < i + L + 1"
  shows "filter (\<lambda>k. S dvd k \<and> k + L + 1 \<le> n) [i..<n] = []"
  using assms by (auto simp: filter_empty_conv)

lemma window_pairs_from_filter:
  assumes "0 < S" "S dvd i"
  shows "window_pairs_from tokens L S i =
         map (\<lambda>k. (window tokens k (k + L), window tokens (k + 1) (k + L + 1)))
           (filter (\<lambda>k. S dvd k \<and> k + L + 1 \<le> length tokens) [i..<length tokens])"
  using assms
proof (induction tokens L S i rule: window_pairs_from.induct)
  case (1 tokens L S i)
  let ?n = "length tokens"
  let ?P = "\<lambda>k. S dvd k \<and> k + L + 1 \<le> ?n"
  show ?case
  proof (cases "i + L + 1 \<le> ?n")
    case False
    then have "filter ?P [i..<?n] = []"
      by (intro filter_upt_too_long) simp
    with False show ?thesis
      by (subst window_pairs_from.simps) simp
  next
    case True
    then have "i < ?n"
      by simp
    have IH: "window_pairs_from tokens L S (i + S) =
         map (\<lambda>k. (window tokens k (k + L), window tokens (k + 1) (k + L + 1)))
           (filter ?P [i + S..<?n])"
      using "1.IH" "1.prems" True by simp
    have mid: "filter ?P [Suc i..<?n] = filter ?P [i + S..<?n]"
    proof (cases "i + S \<le> ?n")
      case le: True
      have "[Suc i..<i + S + (?n - (i + S))] = [Suc i..<i + S] @ [i + S..<i + S + (?n - (i + S))]"
        using "1.prems" by (intro upt_add_eq_append) simp
      then have "[Suc i..<?n] = [Suc i..<i + S] @ [i + S..<?n]"
        using le by simp
      moreover have "filter ?P [Suc i..<i + S] = []"
        using "1.prems" by (intro filter_upt_no_multiple [where i = i]) simp_all
      ultimately show ?thesis
        by simp
    next
      case gt: False
      have a: "filter ?P [Suc i..<?n] = []"
        using "1.prems" gt by (intro filter_upt_no_multiple [where i = i]) simp_all
      have b: "[i + S..<?n] = []"
        using gt by simp
      show ?thesis
        unfolding a b by simp
    qed
    have "filter ?P [i..<?n] = i # filter ?P [Suc i..<?n]"
      using True \<open>i < ?n\<close> "1.prems" by (simp add: upt_conv_Cons)
    then have "filter ?P [i..<?n] = i # filter ?P [i + S..<?n]"
      using mid by simp
    then show ?thesis
      using True "1.prems" IH by (subst window_pairs_from.simps) simp
  qed
qed

lemma window_pairs_filter:
  assumes "0 < S"
  shows "window_pairs tokens L S =
         map (\<lambda>k. (window tokens k (k + L), window tokens (k + 1) (k + L + 1)))
           (filter (\<lambda>k. S dvd k \<and> k + L + 1 \<le> length tokens) [0..<length tokens])"
  unfolding window_pairs_def using assms by (intro window_pairs_from_filter) simp_all

lemma window_pairs_short:
  assumes "length tokens < L + 1"
  shows "window_pairs tokens L S = []"
  using assms unfolding window_pairs_def by (subst window_pairs_from.simps) simp

lemma window_pairs_nonempty:
  assumes "0 < S" "L + 1 \<le> length tokens"
  shows "window_pairs tokens L S \<noteq> []"
  using assms unfolding window_pairs_def by (subst window_pairs_from.simps) simp

lemma batches_Nil: "batches batch_size drop_last [] = []"
  by (subst batches.simps) simp

lemma batches_subset:
  assumes "b \<in> set (batches batch_size drop_last xs)"
  shows "set b \<subseteq> set xs"
  using assms
proof (induction batch_size drop_last xs rule: batches.induct)
  case (1 batch_size drop_last xs)
  show ?case
  proof (cases "batch_size = 0 \<or> xs = []")
    case True
    with "1.prems" show ?thesis
      by (subst (asm) batches.simps) simp
  next
    case nz: False
    show ?thesis
    proof (cases "length xs < batch_size")
      case True
      with nz "1.prems" show ?thesis
        by (subst (asm) batches.simps) (auto split: if_splits)
    next
      case False
      with nz "1.prems" have "b = take batch_size xs \<or>
          b \<in> set (batches batch_size drop_last (drop batch_size xs))"
        by (subst (asm) batches.simps) simp
      then show ?thesis
      proof
        assume "b = take batch_size xs"
        then show ?thesis
          by (simp add: set_take_subset)
      next
        assume "b \<in> set (batches batch_size drop_last (drop batch_size xs))"
        then have "set b \<subseteq> set (drop batch_size xs)"
          using "1.IH" nz False by simp
        then show ?thesis
          using set_drop_subset by fastforce
      qed
    qed
  qed
qed

lemma window_pairs_member:
  assumes "0 < S" "0 < L" "(inp, tgt) \<in> set (window_pairs tokens L S)"
  shows "\<exists>i. S dvd i \<and> i + L + 1 \<le> length tokens \<and>
           inp = window tokens i (i + L) \<and> tgt = window tokens (i + 1) (i + L + 1) \<and>
           length inp = L \<and> length tgt = L \<and>
           (\<forall>k. k + 1 < L \<longrightarrow> tgt ! k = inp ! (k + 1)) \<and>
           tgt ! (L - 1) = tokens ! (i + L)"
proof -
  from assms(1,3) obtain i where i: "S dvd i" "i + L + 1 \<le> length tokens"
    and inp: "inp = window tokens i (i + L)"
    and tgt: "tgt = window tokens (i + 1) (i + L + 1)"
    unfolding window_pairs_filter [OF assms(1)] by auto
  have "length inp = L"
    unfolding inp using i(2) by (subst window_length) simp_all
  moreover have "length tgt = L"
    unfolding tgt using i(2) by (subst window_length) simp_all
  moreover have "tgt ! k = inp ! (k + 1)" if "k + 1 < L" for k
    unfolding inp tgt using i(2) that by (rule window_pair_shift)
  moreover have "tgt ! (L - 1) = tokens ! (i + L)"
    unfolding tgt using i(2) assms(2) by (rule window_pair_last)
  ultimately show ?thesis
    using i inp tgt by blast
qed

lemma shuffled_set:
  assumes "\<forall>f. shuffle = Some f \<longrightarrow> (\<forall>xs. mset (f xs) = mset xs)"
  shows "set (case shuffle of None \<Rightarrow> pairs | Some f \<Rightarrow> f pairs) = set pairs"
proof (cases shuffle)
  case None
  then show ?thesis by simp
next
  case (Some f)
  then have "mset (f pairs) = mset pairs"
    using assms by simp
  then have "set (f pairs) = set pairs"
    by (rule mset_eq_setD)
  with Some show ?thesis by simp
qed

lemma shuffled_Nil:
  assumes "\<forall>f. shuffle = Some f \<longrightarrow> (\<forall>xs. mset (f xs) = mset xs)"
  shows "(case shuffle of None \<Rightarrow> [] | Some f \<Rightarrow> f []) = []"
proof (cases shuffle)
  case None
  then show ?thesis by simp
next
  case (Some f)
  then have "mset (f []) = mset []"
    using assms by simp
  with Some show ?thesis by simp
qed

text \<open>
  C2. For a token sequence \<open>T\<close>, a window length \<open>L > 0\<close> and a stride \<open>S > 0\<close>, the
  pairs are taken at the start indices \<open>i = 0, S, 2S, ...\<close> with \<open>i + L + 1 \<le> len(T)\<close>, in
  that order (there is at least one when \<open>L \<le> len(T) - 1\<close>), and the builder succeeds.
  Every pair \<open>(input, target)\<close> in every emitted batch, shuffled or not, is such a
  pair: both windows have length \<open>L\<close>, \<open>target[k] = input[k+1]\<close> for the first \<open>L-1\<close>
  positions, and \<open>target[L-1]\<close> is the token of \<open>T\<close> right after the input window.
\<close>

theorem windowed_pairs_shifted:
  assumes "0 < L" "0 < S"
    and "\<forall>f. shuffle = Some f \<longrightarrow> (\<forall>xs. mset (f xs) = mset xs)"
  shows "window_pairs T L S =
           map (\<lambda>i. (window T i (i + L), window T (i + 1) (i + L + 1)))
             (filter (\<lambda>i. S dvd i \<and> i + L + 1 \<le> length T) [0..<length T]) \<and>
         (int L \<le> int (length T) - 1 \<longrightarrow> window_pairs T L S \<noteq> []) \<and>
         (\<exists>bs. windowed_batch_builder T (int L) (int S) batch_size drop_last shuffle = Inr bs \<and>
            (\<forall>b\<in>set bs. \<forall>(inp, tgt)\<in>set b.
               \<exists>i. S dvd i \<and> i + L + 1 \<le> length T \<and>
                 inp = window T i (i + L) \<and> tgt = window T (i + 1) (i + L + 1) \<and>
                 length inp = L \<and> length tgt = L \<and>
                 (\<forall>k. k + 1 < L \<longrightarrow> tgt ! k = inp ! (k + 1)) \<and>
                 tgt ! (L - 1) = T ! (i + L)))"
proof -
  let ?ordered = "case shuffle of None \<Rightarrow> window_pairs T L S | Some f \<Rightarrow> f (window_pairs T L S)"
  let ?bs = "batches batch_size drop_last ?ordered"
  have starts: "window_pairs T L S =
           map (\<lambda>i. (window T i (i + L), window T (i + 1) (i + L + 1)))
             (filter (\<lambda>i. S dvd i \<and> i + L + 1 \<le> length T) [0..<length T])"
    using assms(2) by (rule window_pairs_filter)
  have some: "int L \<le> int (length T) - 1 \<longrightarrow> window_pairs T L S \<noteq> []"
  proof
    assume "int L \<le> int (length T) - 1"
    then have "L + 1 \<le> length T"
      by simp
    with assms(2) show "window_pairs T L S \<noteq> []"
      by (rule window_pairs_nonempty)
  qed
  have run: "windowed_batch_builder T (int L) (int S) batch_size drop_last shuffle = Inr ?bs"
    using assms(1,2) by (simp add: windowed_batch_builder_def Let_def)
  have ordered: "set ?ordered = set (window_pairs T L S)"
    using assms(3) by (rule shuffled_set)
  have emitted: "\<forall>b\<in>set ?bs. \<forall>(inp, tgt)\<in>set b.
          \<exists>i. S dvd i \<and> i + L + 1 \<le> length T \<and>
          inp = window T i (i + L) \<and> tgt = window T (i + 1) (i + L + 1) \<and>
          length inp = L \<and> length tgt = L \<and>
          (\<forall>k. k + 1 < L \<longrightarrow> tgt ! k = inp ! (k + 1)) \<and>
          tgt ! (L - 1) = T ! (i + L)"
  proof (intro ballI)
    fix b p
    assume b: "b \<in> set ?bs" and p: "p \<in> set b"
    obtain inp tgt where eq: "p = (inp, tgt)"
      by (cases p)
    have "set b \<subseteq> set ?ordered"
      using b by (rule batches_subset)
    then have "(inp, tgt) \<in> set (window_pairs T L S)"
      using p ordered eq by blast
    with assms(2,1) have "\<exists>i. S dvd i \<and> i + L + 1 \<le> length T \<and>
          inp = window T i (i + L) \<and> tgt = window T (i + 1) (i + L + 1) \<and>
          length inp = L \<and> length tgt = L \<and>
          (\<forall>k. k + 1 < L \<longrightarrow> tgt ! k = inp ! (k + 1)) \<and>
          tgt ! (L - 1) = T ! (i + L)"
      by (rule window_pairs_member)
    then show "case p of (inp, tgt) \<Rightarrow>
          \<exists>i. S dvd i \<and> i + L + 1 \<le> length T \<and>
          inp = window T i (i + L) \<and> tgt = window T (i + 1) (i + L + 1) \<and>
          length inp = L \<and> length tgt = L \<and>
          (\<forall>k. k + 1 < L \<longrightarrow> tgt ! k = inp ! (k + 1)) \<and>
          tgt ! (L - 1) = T ! (i + L)"
      unfolding eq prod.case .
  qed
  from run emitted
  have "\<exists>bs. windowed_batch_builder T (int L) (int S) batch_size drop_last shuffle = Inr bs \<and>
            (\<forall>b\<in>set bs. \<forall>(inp, tgt)\<in>set b.
               \<exists>i. S dvd i \<and> i + L + 1 \<le> length T \<and>
                 inp = window T i (i + L) \<and> tgt = window T (i + 1) (i + L + 1) \<and>
                 length inp = L \<and> length tgt = L \<and>
                 (\<forall>k. k + 1 < L \<longrightarrow> tgt ! k = inp ! (k + 1)) \<and>
                 tgt ! (L - 1) = T ! (i + L))"
    by (intro exI conjI)
  with starts some show ?thesis
    by (intro conjI)
qed

theorem windowed_pairs_shifted_witness:
  "(0::nat) < 2 \<and> int 2 \<le> int (length [10, 20, 30, 40, 50, 60 :: nat]) - 1 \<and>
   window_pairs [10, 20, 30, 40, 50, 60 :: nat] 2 2 =
     [([10, 20], [20, 30]), ([30, 40], [40, 50])] \<and>
   windowed_batch_builder [10, 20, 30, 40, 50, 60 :: nat] (int 2) (int 2) 2 False (Some rev) =
     Inr [ [([30, 40], [40, 50]), ([10, 20], [20, 30])] ] \<and>
   (\<exists>bs. windowed_batch_builder [10, 20, 30, 40, 50, 60 :: nat] (int 2) (int 2) 2 False (Some rev)
          = Inr bs \<and>
      (\<forall>b\<in>set bs. \<forall>(inp, tgt)\<in>set b.
         \<exists>i. 2 dvd i \<and> i + 2 + 1 \<le> length [10, 20, 30, 40, 50, 60 :: nat] \<and>
           inp = window [10, 20, 30, 40, 50, 60] i (i + 2) \<and>
           tgt = window [10, 20, 30, 40, 50, 60] (i + 1) (i + 2 + 1) \<and>
           length inp = 2 \<and> length tgt = 2 \<and>
           (\<forall>k. k + 1 < 2 \<longrightarrow> tgt ! k = inp ! (k + 1)) \<and>
           tgt ! (2 - 1) = [10, 20, 30, 40, 50, 60] ! (i + 2)))"
proof -
  have perm: "\<forall>f. Some rev = Some f \<longrightarrow> (\<forall>xs. mset (f xs) = mset xs)"
    by auto
  have pairs: "window_pairs [10, 20, 30, 40, 50, 60 :: nat] 2 2 =
      [([10, 20], [20, 30]), ([30, 40], [40, 50])]"
    by code_simp
  have run: "windowed_batch_builder [10, 20, 30, 40, 50, 60 :: nat] (int 2) (int 2) 2 False
      (Some rev) = Inr [ [([30, 40], [40, 50]), ([10, 20], [20, 30])] ]"
    by code_simp
  have pos: "(0::nat) < 2"
    by simp
  show ?thesis
    using windowed_pairs_shifted [OF pos pos perm, of "[10, 20, 30, 40, 50, 60 :: nat]" 2 False]
      pairs run
    by simp
qed

text \<open>
  C7. For a token sequence shorter than \<open>L + 1\<close> (with a valid window length and
  stride), the builder raises nothing and yields an empty sequence of batches,
  whatever the batch size, \<open>drop_last\<close> and the shuffling.
\<close>

theorem short_sequence_no_batches:
  assumes "0 < L" "0 < S" "int (length T) < L + 1"
    and "\<forall>f. shuffle = Some f \<longrightarrow> (\<forall>xs. mset (f xs) = mset xs)"
  shows "windowed_batch_builder T L S batch_size drop_last shuffle = Inr []"
proof -
  have "length T < nat L + 1"
    using assms(1,3) by simp
  then have "window_pairs T (nat L) (nat S) = []"
    by (rule window_pairs_short)
  moreover have "(case shuffle of None \<Rightarrow> [] | Some f \<Rightarrow> f []) = ([] :: ('a list \<times> 'a list) list)"
    using assms(4) by (rule shuffled_Nil)
  ultimately show ?thesis
    using assms(1,2) by (simp add: windowed_batch_builder_def Let_def batches_Nil)
qed

theorem short_sequence_no_batches_witness:
  "(0::int) < 4 \<and> int (length [10, 20, 30, 40 :: nat]) < 4 + 1 \<and>
   windowed_batch_builder [10, 20, 30, 40 :: nat] 4 4 2 False (Some rev) = Inr [] \<and>
   windowed_batch_builder [10, 20, 30, 40 :: nat] 4 4 2 True None = Inr []"
proof -
  have perm: "\<forall>f. Some rev = Some f \<longrightarrow> (\<forall>xs. mset (f xs) = mset xs)"
    by auto
  have none: "\<forall>f. None = Some f \<longrightarrow> (\<forall>xs. mset (f xs) = mset xs)"
    by simp
  have pos: "(0::int) < 4"
    by simp
  have short: "int (length [10, 20, 30, 40 :: nat]) < 4 + 1"
    by simp
  show ?thesis
    using short_sequence_no_batches [OF pos pos short perm, of 2 False]
      short_sequence_no_batches [OF pos pos short none, of 2 True]
    by simp
qed

section \<open>Properties of the loss\<close>

lemma sum_list_exp_pos:
  assumes "xs \<noteq> []"
  shows "0 < sum_list (map exp xs :: real list)"
  using assms
proof (induction xs)
  case Nil
  then show ?case by simp
next
  case (Cons x xs)
  have "0 \<le> sum_list (map exp xs)"
    by (rule sum_list_nonneg) auto
  moreover have "0 < exp x"
    by simp
  ultimately show ?case
    by (simp add: add_pos_nonneg)
qed

lemma sum_list_exp_shift:
  "sum_list (map (\<lambda>z. exp (z - m)) xs) = sum_list (map exp xs) / exp (m::real)"
  by (induction xs) (simp_all add: exp_diff add_divide_distrib)

lemma length_softmax: "length (softmax xs) = length xs"
  by (simp add: softmax_def)

lemma length_log_softmax: "length (log_softmax xs) = length xs"
  by (cases xs) (simp_all add: Let_def)

lemma softmax_nth:
  assumes "t < length xs"
  shows "softmax xs ! t = exp (xs ! t) / sum_list (map exp xs)"
  using assms by (simp add: softmax_def)

lemma softmax_pos:
  assumes "t < length xs"
  shows "0 < softmax xs ! t"
proof -
  have "xs \<noteq> []"
    using assms by auto
  then have "0 < sum_list (map exp xs)"
    by (rule sum_list_exp_pos)
  then show ?thesis
    using assms by (simp add: softmax_nth)
qed

lemma ln_softmax_nth:
  assumes "t < length xs"
  shows "ln (softmax xs ! t) = xs ! t - ln (sum_list (map exp xs))"
proof -
  have "xs \<noteq> []"
    using assms by auto
  then have "0 < sum_list (map exp xs)"
    by (rule sum_list_exp_pos)
  then have "ln (exp (xs ! t) / sum_list (map exp xs)) = ln (exp (xs ! t)) - ln (sum_list (map exp xs))"
    by (intro ln_divide_pos) simp_all
  then show ?thesis
    using assms by (simp add: softmax_nth)
qed

lemma log_softmax_nth:
  assumes "t < length xs"
  shows "log_softmax xs ! t = ln (softmax xs ! t)"
proof (cases xs)
  case Nil
  with assms show ?thesis by simp
next
  case (Cons y ys)
  define m where "m = fold max ys y"
  have pos: "0 < sum_list (map exp xs)"
    using Cons by (intro sum_list_exp_pos) simp
  have "ln (sum_list (map (\<lambda>z. exp (z - m)) xs)) = ln (sum_list (map exp xs) / exp m)"
    by (simp only: sum_list_exp_shift)
  also have "\<dots> = ln (sum_list (map exp xs)) - ln (exp m)"
    using pos by (intro ln_divide_pos) simp_all
  finally have shift: "ln (sum_list (map (\<lambda>z. exp (z - m)) xs)) = ln (sum_list (map exp xs)) - m"
    by simp
  have "log_softmax xs = map (\<lambda>z. z - m - ln (sum_list (map (\<lambda>z. exp (z - m)) xs))) xs"
    unfolding Cons m_def by (simp add: Let_def)
  then have "log_softmax xs ! t = xs ! t - m - ln (sum_list (map (\<lambda>z. exp (z - m)) xs))"
    using assms by simp
  then have "log_softmax xs ! t = xs ! t - ln (sum_list (map exp xs))"
    unfolding shift by simp
  then show ?thesis
    using assms by (simp add: ln_softmax_nth)
qed

lemma sum_list_exp_index:
  "sum_list (map exp xs) = (\<Sum>v<length xs. exp (xs ! v :: real))"
proof -
  have "sum_list (map exp xs) = (\<Sum>v = 0..<length (map exp xs). map exp xs ! v)"
    by (rule sum_list_sum_nth)
  also have "\<dots> = (\<Sum>v = 0..<length xs. exp (xs ! v))"
    by (intro sum.cong) simp_all
  finally show ?thesis
    by (simp add: atLeast0LessThan)
qed

lemma gather_rows_all2:
  assumes "list_all2 (\<lambda>row t. t < length row) rows ts"
  shows "gather_rows rows ts = Inr (map2 (\<lambda>row t. row ! t) rows ts)"
  using assms by (induction rule: list_all2_induct) simp_all

lemma torch_log_pos:
  assumes "\<forall>x\<in>set xs. 0 < x"
  shows "torch_log xs = Inr (map ln xs)"
  using assms by (induction xs) simp_all


lemma sum_list_uminus_real: "sum_list (map uminus xs) = - sum_list (xs :: real list)"
  by (induction xs) simp_all

lemma map2_cong_all2:
  assumes "list_all2 (\<lambda>x y. f x y = g x y) xs ys"
  shows "map2 f xs ys = map2 g xs ys"
  using assms by (induction rule: list_all2_induct) simp_all

lemma concat_all2:
  assumes "list_all2 (list_all2 Q) xss yss"
  shows "list_all2 Q (concat xss) (concat yss)"
  using assms by (induction rule: list_all2_induct) (simp_all add: list_all2_appendI)

lemma sum_map2_index:
  assumes "length xs = n" "length ys = n"
  shows "sum_list (map2 g xs ys) = (\<Sum>p<n. g (xs ! p) (ys ! p) :: real)"
proof -
  have "sum_list (map2 g xs ys) = (\<Sum>p = 0..<length (map2 g xs ys). map2 g xs ys ! p)"
    by (rule sum_list_sum_nth)
  also have "\<dots> = (\<Sum>p = 0..<n. g (xs ! p) (ys ! p))"
    using assms by (intro sum.cong) simp_all
  finally show ?thesis
    by (simp add: atLeast0LessThan)
qed

lemma sum_concat_index:
  assumes "list_all2 (\<lambda>xs ys. length xs = n \<and> length ys = n) xss yss"
  shows "sum_list (map2 g (concat xss) (concat yss)) =
         (\<Sum>b<length xss. \<Sum>p<n. g (xss ! b ! p) (yss ! b ! p) :: real)"
  using assms
proof (induction rule: list_all2_induct)
  case Nil
  then show ?case by simp
next
  case (Cons xs xss ys yss)
  have "sum_list (map2 g (concat (xs # xss)) (concat (ys # yss))) =
        sum_list (map2 g xs ys) + sum_list (map2 g (concat xss) (concat yss))"
    using Cons.hyps(1) by simp
  also have "sum_list (map2 g xs ys) = (\<Sum>p<n. g (xs ! p) (ys ! p))"
    using Cons.hyps(1) by (intro sum_map2_index) simp_all
  also have "sum_list (map2 g (concat xss) (concat yss)) =
        (\<Sum>b<length xss. \<Sum>p<n. g (xss ! b ! p) (yss ! b ! p))"
    by (rule Cons.IH)
  finally have flat: "sum_list (map2 g (concat (xs # xss)) (concat (ys # yss))) =
        (\<Sum>p<n. g (xs ! p) (ys ! p)) +
        (\<Sum>b<length xss. \<Sum>p<n. g (xss ! b ! p) (yss ! b ! p))" .
  have "(\<Sum>b<length (xs # xss). \<Sum>p<n. g ((xs # xss) ! b ! p) ((ys # yss) ! b ! p)) =
        (\<Sum>p<n. g (xs ! p) (ys ! p)) +
        (\<Sum>b<length xss. \<Sum>p<n. g (xss ! b ! p) (yss ! b ! p))"
    unfolding length_Cons sum.lessThan_Suc_shift by simp
  with flat show ?case
    by simp
qed

lemma length_concat_rect:
  assumes "list_all2 (\<lambda>xs ys. length xs = n \<and> length ys = n) xss yss"
  shows "length (concat xss) = length xss * n \<and> length (concat yss) = length xss * n"
  using assms by (induction rule: list_all2_induct) simp_all

lemma has_shape_rect:
  assumes "has_shape B T V logits targets"
  shows "list_all2 (\<lambda>rows ts. length rows = T \<and> length ts = T) logits targets"
  using assms unfolding has_shape_def list_all2_conv_all_nth by simp

lemma has_shape_entry:
  assumes "has_shape B T V logits targets" "b < B" "p < T"
  shows "length (logits ! b ! p) = V \<and> targets ! b ! p < V"
proof -
  have "logits ! b \<in> set logits" "targets ! b \<in> set targets"
    using assms by (simp_all add: has_shape_def)
  then have rows: "length (logits ! b) = T" "\<forall>row\<in>set (logits ! b). length row = V"
    and ts: "length (targets ! b) = T" "\<forall>t\<in>set (targets ! b). t < V"
    using assms(1) by (simp_all add: has_shape_def)
  have "logits ! b ! p \<in> set (logits ! b)" "targets ! b ! p \<in> set (targets ! b)"
    using rows(1) ts(1) assms(3) by simp_all
  then show ?thesis
    using rows(2) ts(2) by simp
qed

lemma has_shape_all2:
  assumes "has_shape B T V logits targets"
    and "\<And>b p. b < B \<Longrightarrow> p < T \<Longrightarrow> Q (logits ! b ! p) (targets ! b ! p)"
  shows "list_all2 Q (concat logits) (concat targets)"
proof -
  have len: "length logits = B" "length targets = B"
    using assms(1) by (simp_all add: has_shape_def)
  have "list_all2 Q (logits ! b) (targets ! b)" if "b < B" for b
  proof -
    have "logits ! b \<in> set logits" "targets ! b \<in> set targets"
      using that len by simp_all
    then have "length (logits ! b) = T" "length (targets ! b) = T"
      using assms(1) by (simp_all add: has_shape_def)
    then show ?thesis
      using assms(2) that by (simp add: list_all2_conv_all_nth)
  qed
  then have "list_all2 (list_all2 Q) logits targets"
    using len by (simp add: list_all2_conv_all_nth)
  then show ?thesis
    by (rule concat_all2)
qed

lemma has_shape_softmax:
  assumes "has_shape B T V logits targets"
  shows "has_shape B T V (map (map softmax) logits) targets"
  using assms by (simp add: has_shape_def length_softmax)

lemma length_three:
  assumes "length xs = 3"
  obtains a b c where "xs = [a, b, c]"
  using assms by (auto simp: numeral_3_eq_3 length_Suc_conv)

lemma length_two:
  assumes "length xs = 2"
  obtains a b where "xs = [a, b]"
  using assms by (auto simp: numeral_2_eq_2 length_Suc_conv)

lemma target_probas_of_row:
  assumes "b < length probas" "b < length targets"
    and "length (probas ! b) = 3" "length (targets ! b) = 3"
    and "\<And>p. p < 3 \<Longrightarrow> targets ! b ! p < length (probas ! b ! p)"
  shows "target_probas_of probas targets b = Inr (map2 (\<lambda>row t. row ! t) (probas ! b) (targets ! b))"
proof -
  obtain r0 r1 r2 where rows: "probas ! b = [r0, r1, r2]"
    using assms(3) by (rule length_three)
  obtain t0 t1 t2 where ts: "targets ! b = [t0, t1, t2]"
    using assms(4) by (rule length_three)
  have "t0 < length r0" "t1 < length r1" "t2 < length r2"
    using assms(5) [of 0] assms(5) [of 1] assms(5) [of 2] by (simp_all add: rows ts)
  then show ?thesis
    using assms(1,2)
    by (simp add: target_probas_of_def index_batch_def broadcast_pairs_def rows ts)
qed

lemma target_probas_shape:
  assumes "has_shape 2 3 V probas targets"
  shows "target_probas probas targets =
         Inr (map2 (\<lambda>row t. row ! t) (concat probas) (concat targets))"
proof -
  have len: "length probas = 2" "length targets = 2"
    using assms by (simp_all add: has_shape_def)
  obtain p0 p1 where ps: "probas = [p0, p1]"
    using len(1) by (rule length_two)
  obtain t0 t1 where ts: "targets = [t0, t1]"
    using len(2) by (rule length_two)
  have l3: "length p0 = 3" "length p1 = 3" "length t0 = 3" "length t1 = 3"
    using assms by (simp_all add: has_shape_def ps ts)
  have "target_probas_of probas targets 0 =
      Inr (map2 (\<lambda>row t. row ! t) (probas ! 0) (targets ! 0))"
  proof (rule target_probas_of_row)
    fix p :: nat
    assume "p < 3"
    then show "targets ! 0 ! p < length (probas ! 0 ! p)"
      using has_shape_entry [OF assms, of 0 p] by simp
  qed (simp_all add: ps ts l3)
  moreover have "target_probas_of probas targets 1 =
      Inr (map2 (\<lambda>row t. row ! t) (probas ! 1) (targets ! 1))"
  proof (rule target_probas_of_row)
    fix p :: nat
    assume "p < 3"
    then show "targets ! 1 ! p < length (probas ! 1 ! p)"
      using has_shape_entry [OF assms, of 1 p] by simp
  qed (simp_all add: ps ts l3)
  ultimately show ?thesis
    by (simp add: target_probas_def ps ts l3)
qed

lemma torch_mean_value:
  assumes "length xs = n" "0 < n"
  shows "torch_mean xs = Inr (sum_list xs / real n)"
  using assms by (auto simp: torch_mean_def)

lemma loss_from_probas_value:
  assumes shape: "has_shape B T V probas targets" and "B = 2" "T = 3"
    and pos: "\<And>b p. b < B \<Longrightarrow> p < T \<Longrightarrow> 0 < probas ! b ! p ! (targets ! b ! p)"
  shows "loss_from_probas probas targets =
         Inr (- (\<Sum>b<B. \<Sum>p<T. ln (probas ! b ! p ! (targets ! b ! p))) / real (B * T))"
proof -
  let ?rows = "concat probas" and ?ts = "concat targets"
  let ?tp = "map2 (\<lambda>row t. row ! t) ?rows ?ts"
  have rect: "list_all2 (\<lambda>rows ts. length rows = T \<and> length ts = T) probas targets"
    using shape by (rule has_shape_rect)
  have B: "length probas = B"
    using shape by (simp add: has_shape_def)
  have len: "length ?rows = B * T" "length ?ts = B * T"
    using length_concat_rect [OF rect] B by simp_all
  have tp: "target_probas probas targets = Inr ?tp"
    using shape unfolding assms(2,3) by (rule target_probas_shape)
  have "list_all2 (\<lambda>row t. 0 < row ! t) ?rows ?ts"
    using shape by (rule has_shape_all2) (rule pos)
  then have "\<forall>x\<in>set ?tp. 0 < x"
    by (auto simp: list_all2_iff)
  then have logs: "torch_log ?tp = Inr (map ln ?tp)"
    by (rule torch_log_pos)
  have "0 < B * T"
    using assms(2,3) by simp
  moreover have "length (map ln ?tp) = B * T"
    using len by simp
  ultimately have mean: "torch_mean (map ln ?tp) = Inr (sum_list (map ln ?tp) / real (B * T))"
    by (intro torch_mean_value)
  have "map ln ?tp = map2 (\<lambda>row t. ln (row ! t)) ?rows ?ts"
    by (simp add: case_prod_unfold)
  also have "sum_list \<dots> = (\<Sum>b<length probas. \<Sum>p<T. ln (probas ! b ! p ! (targets ! b ! p)))"
    using rect by (rule sum_concat_index)
  finally have "sum_list (map ln ?tp) = (\<Sum>b<B. \<Sum>p<T. ln (probas ! b ! p ! (targets ! b ! p)))"
    using B by simp
  with mean have "torch_mean (map ln ?tp) =
      Inr ((\<Sum>b<B. \<Sum>p<T. ln (probas ! b ! p ! (targets ! b ! p))) / real (B * T))"
    by simp
  with tp logs show ?thesis
    by (simp add: loss_from_probas_def)
qed

lemma softmax_entry:
  assumes "has_shape B T V logits targets" "b < B" "p < T"
  shows "map (map softmax) logits ! b ! p ! (targets ! b ! p) =
         exp (logits ! b ! p ! (targets ! b ! p)) / (\<Sum>v<V. exp (logits ! b ! p ! v))"
    and "map (map softmax) logits ! b ! p = softmax (logits ! b ! p)"
proof -
  have "logits ! b \<in> set logits" "length logits = B"
    using assms by (simp_all add: has_shape_def)
  then have "length (logits ! b) = T"
    using assms(1) by (simp add: has_shape_def)
  then show row: "map (map softmax) logits ! b ! p = softmax (logits ! b ! p)"
    using assms \<open>length logits = B\<close> by simp
  have "length (logits ! b ! p) = V" "targets ! b ! p < V"
    using has_shape_entry [OF assms] by simp_all
  then show "map (map softmax) logits ! b ! p ! (targets ! b ! p) =
         exp (logits ! b ! p ! (targets ! b ! p)) / (\<Sum>v<V. exp (logits ! b ! p ! v))"
    unfolding row by (simp add: softmax_nth sum_list_exp_index)
qed

lemma neg_avg_log_probas_value:
  assumes shape: "has_shape B T V logits targets" and "B = 2" "T = 3"
  shows "neg_avg_log_probas logits targets = Inr (mean_neg_log_prob B T V logits targets)"
proof -
  let ?probas = "map (map softmax) logits"
  have shape': "has_shape B T V ?probas targets"
    using shape by (rule has_shape_softmax)
  have "0 < ?probas ! b ! p ! (targets ! b ! p)" if "b < B" "p < T" for b p
  proof -
    have "length (logits ! b ! p) = V" "targets ! b ! p < V"
      using has_shape_entry [OF shape that] by simp_all
    then have "0 < softmax (logits ! b ! p) ! (targets ! b ! p)"
      by (intro softmax_pos) simp
    then show ?thesis
      using softmax_entry(2) [OF shape that] by simp
  qed
  with shape' assms(2,3) have "loss_from_probas ?probas targets =
      Inr (- (\<Sum>b<B. \<Sum>p<T. ln (?probas ! b ! p ! (targets ! b ! p))) / real (B * T))"
    by (rule loss_from_probas_value)
  moreover have "(\<Sum>b<B. \<Sum>p<T. ln (?probas ! b ! p ! (targets ! b ! p))) =
      (\<Sum>b<B. \<Sum>p<T. ln (exp (logits ! b ! p ! (targets ! b ! p)) /
          (\<Sum>v<V. exp (logits ! b ! p ! v))))"
    using softmax_entry(1) [OF shape] by (intro sum.cong refl) simp
  ultimately show ?thesis
    by (simp add: neg_avg_log_probas_def mean_neg_log_prob_def)
qed

lemma loss_value:
  assumes shape: "has_shape B T V logits targets" and "0 < B" "0 < T"
  shows "loss logits targets = Inr (mean_neg_log_prob B T V logits targets)"
proof -
  let ?rows = "concat logits" and ?ts = "concat targets"
  let ?lp = "map2 (\<lambda>row t. ln (softmax row ! t)) ?rows ?ts"
  have rect: "list_all2 (\<lambda>rows ts. length rows = T \<and> length ts = T) logits targets"
    using shape by (rule has_shape_rect)
  have B: "length logits = B"
    using shape by (simp add: has_shape_def)
  have len: "length ?rows = B * T" "length ?ts = B * T"
    using length_concat_rect [OF rect] B by simp_all
  have inb: "list_all2 (\<lambda>row t. t < length row) ?rows ?ts"
    using shape by (rule has_shape_all2) (simp add: has_shape_entry [OF shape])
  then have "list_all2 (\<lambda>row t. t < length row) (map log_softmax ?rows) ?ts"
    by (simp add: list_all2_map1 length_log_softmax)
  then have "gather_rows (map log_softmax ?rows) ?ts =
      Inr (map2 (\<lambda>row t. row ! t) (map log_softmax ?rows) ?ts)"
    by (rule gather_rows_all2)
  moreover have "map2 (\<lambda>row t. row ! t) (map log_softmax ?rows) ?ts =
      map2 (\<lambda>row t. log_softmax row ! t) ?rows ?ts"
    by (simp add: zip_map1 case_prod_unfold)
  moreover have "map2 (\<lambda>row t. log_softmax row ! t) ?rows ?ts = ?lp"
  proof (rule map2_cong_all2)
    show "list_all2 (\<lambda>row t. log_softmax row ! t = ln (softmax row ! t)) ?rows ?ts"
      using inb by (rule list_all2_mono) (rule log_softmax_nth)
  qed
  ultimately have gathered: "gather_rows (map log_softmax ?rows) ?ts = Inr ?lp"
    by simp
  have "0 < B * T"
    using assms(2,3) by simp
  moreover have "length (map uminus ?lp) = B * T"
    using len by simp
  ultimately have "torch_mean (map uminus ?lp) = Inr (sum_list (map uminus ?lp) / real (B * T))"
    by (intro torch_mean_value)
  then have mean: "torch_mean (map uminus ?lp) = Inr (- sum_list ?lp / real (B * T))"
    by (simp only: sum_list_uminus_real)
  have "sum_list ?lp = (\<Sum>b<length logits. \<Sum>p<T. ln (softmax (logits ! b ! p) ! (targets ! b ! p)))"
    using rect by (rule sum_concat_index)
  also have "\<dots> = (\<Sum>b<B. \<Sum>p<T. ln (exp (logits ! b ! p ! (targets ! b ! p)) /
          (\<Sum>v<V. exp (logits ! b ! p ! v))))"
    unfolding B using softmax_entry [OF shape] by (intro sum.cong refl) simp
  finally have "sum_list ?lp = (\<Sum>b<B. \<Sum>p<T. ln (exp (logits ! b ! p ! (targets ! b ! p)) /
          (\<Sum>v<V. exp (logits ! b ! p ! v))))" .
  with mean gathered len show ?thesis
    by (simp add: loss_def cross_entropy_def mean_neg_log_prob_def)
qed



lemma loss_eq_stepwise:
  assumes "has_shape B T V logits targets" "B = 2" "T = 3"
  shows "loss logits targets = loss_from_probas (map (map softmax) logits) targets"
proof -
  have "loss logits targets = Inr (mean_neg_log_prob B T V logits targets)"
    using assms by (intro loss_value) simp_all
  then show ?thesis
    using neg_avg_log_probas_value [OF assms] by (simp add: neg_avg_log_probas_def)
qed



lemma loss_as_softmax:
  assumes "has_shape B T V logits targets" "0 < B" "0 < T"
  shows "loss logits targets =
         Inr (- (\<Sum>b<B. \<Sum>p<T. ln (softmax (logits ! b ! p) ! (targets ! b ! p))) / real (B * T))"
proof -
  have "(\<Sum>b<B. \<Sum>p<T. ln (exp (logits ! b ! p ! (targets ! b ! p)) /
          (\<Sum>v<V. exp (logits ! b ! p ! v)))) =
        (\<Sum>b<B. \<Sum>p<T. ln (softmax (logits ! b ! p) ! (targets ! b ! p)))"
  proof (intro sum.cong refl)
    fix b p
    assume "b \<in> {..<B}" "p \<in> {..<T}"
    then have "length (logits ! b ! p) = V \<and> targets ! b ! p < V"
      using has_shape_entry [OF assms(1)] by simp
    then show "ln (exp (logits ! b ! p ! (targets ! b ! p)) / (\<Sum>v<V. exp (logits ! b ! p ! v))) =
        ln (softmax (logits ! b ! p) ! (targets ! b ! p))"
      by (simp add: softmax_nth sum_list_exp_index)
  qed
  then show ?thesis
    using loss_value [OF assms] by (simp add: mean_neg_log_prob_def)
qed





text \<open>
  C3 (as stated, refuted). The claim is for every shape \<open>(batch, positions,
  vocabulary)\<close>. The step-by-step cell reads the batch elements 0 and 1 at the
  positions 0, 1, 2 only. For a batch of one element it raises \<open>IndexError\<close> where the
  cross-entropy is defined, for two positions as well, and for a batch of three
  elements it averages the first two, which differs from the cross-entropy over all
  three.
\<close>

theorem stepwise_shape_counterexample:
  "has_shape 1 3 1 [ [ [0], [0], [0] ] ] [ [0, 0, 0] ] \<and>
   neg_avg_log_probas [ [ [0], [0], [0] ] ] [ [0, 0, 0] ] = Inl IndexError \<and>
   loss [ [ [0], [0], [0] ] ] [ [0, 0, 0] ] = Inr 0 \<and>
   has_shape 2 2 1 [ [ [0], [0] ], [ [0], [0] ] ] [ [0, 0], [0, 0] ] \<and>
   neg_avg_log_probas [ [ [0], [0] ], [ [0], [0] ] ] [ [0, 0], [0, 0] ] = Inl IndexError \<and>
   loss [ [ [0], [0] ], [ [0], [0] ] ] [ [0, 0], [0, 0] ] = Inr 0 \<and>
   has_shape 3 3 2
     [ [ [0, 0], [0, 0], [0, 0] ], [ [0, 0], [0, 0], [0, 0] ],
       [ [ln 3, 0], [ln 3, 0], [ln 3, 0] ] ]
     [ [0, 0, 0], [0, 0, 0], [0, 0, 0] ] \<and>
   neg_avg_log_probas
     [ [ [0, 0], [0, 0], [0, 0] ], [ [0, 0], [0, 0], [0, 0] ],
       [ [ln 3, 0], [ln 3, 0], [ln 3, 0] ] ]
     [ [0, 0, 0], [0, 0, 0], [0, 0, 0] ] = Inr (ln 2) \<and>
   loss
     [ [ [0, 0], [0, 0], [0, 0] ], [ [0, 0], [0, 0], [0, 0] ],
       [ [ln 3, 0], [ln 3, 0], [ln 3, 0] ] ]
     [ [0, 0, 0], [0, 0, 0], [0, 0, 0] ] = Inr ((6 * ln 2 + 3 * ln (4 / 3)) / 9) \<and>
   (6 * ln 2 + 3 * ln (4 / 3)) / 9 \<noteq> ln (2::real)"
proof -
  let ?l1 = "[ [ [0], [0], [0] ] ] :: real list list list"
  let ?t1 = "[ [0, 0, 0] ] :: nat list list"
  let ?l2 = "[ [ [0], [0] ], [ [0], [0] ] ] :: real list list list"
  let ?t2 = "[ [0, 0], [0, 0] ] :: nat list list"
  let ?l3 = "[ [ [0, 0], [0, 0], [0, 0] ], [ [0, 0], [0, 0], [0, 0] ],
       [ [ln 3, 0], [ln 3, 0], [ln 3, 0] ] ] :: real list list list"
  let ?t3 = "[ [0, 0, 0], [0, 0, 0], [0, 0, 0] ] :: nat list list"
  have s1: "has_shape 1 3 1 ?l1 ?t1" and s2: "has_shape 2 2 1 ?l2 ?t2"
    and s3: "has_shape 3 3 2 ?l3 ?t3"
    by (simp_all add: has_shape_def)
  have n1: "neg_avg_log_probas ?l1 ?t1 = Inl IndexError"
    by (simp add: neg_avg_log_probas_def loss_from_probas_def target_probas_def
        target_probas_of_def index_batch_def broadcast_pairs_def softmax_def)
  have n2: "neg_avg_log_probas ?l2 ?t2 = Inl IndexError"
    by (simp add: neg_avg_log_probas_def loss_from_probas_def target_probas_def
        target_probas_of_def index_batch_def broadcast_pairs_def softmax_def)
  have "(\<Sum>b<1::nat. \<Sum>p<3::nat. ln (softmax (?l1 ! b ! p) ! (?t1 ! b ! p))) = 0"
    by (simp add: softmax_def lessThan_Suc numeral_3_eq_3)
  then have c1: "loss ?l1 ?t1 = Inr 0"
    using loss_as_softmax [OF s1] by simp
  have "(\<Sum>b<2::nat. \<Sum>p<2::nat. ln (softmax (?l2 ! b ! p) ! (?t2 ! b ! p))) = 0"
    by (simp add: softmax_def lessThan_Suc numeral_2_eq_2)
  then have c2: "loss ?l2 ?t2 = Inr 0"
    using loss_as_softmax [OF s2] by simp
  have n3: "neg_avg_log_probas ?l3 ?t3 = Inr (ln 2)"
    by (simp add: neg_avg_log_probas_def loss_from_probas_def target_probas_def
        target_probas_of_def index_batch_def broadcast_pairs_def softmax_def torch_mean_def
        ln_div)
  have "(\<Sum>b<3::nat. \<Sum>p<3::nat. ln (softmax (?l3 ! b ! p) ! (?t3 ! b ! p))) =
      6 * ln (1 / 2) + 3 * ln (3 / 4)"
    by (simp add: softmax_def lessThan_Suc numeral_3_eq_3)
  then have c3: "loss ?l3 ?t3 = Inr ((6 * ln 2 + 3 * ln (4 / 3)) / 9)"
    using loss_as_softmax [OF s3] by (simp add: ln_div)
  have "ln (4 / 3) \<noteq> ln (2::real)"
    by simp
  then have ne: "(6 * ln 2 + 3 * ln (4 / 3)) / 9 \<noteq> ln (2::real)"
    by simp
  show ?thesis
    using s1 s2 s3 n1 n2 n3 c1 c2 c3 ne by (simp only: simp_thms)
qed

text \<open>
  C3 (amended). For logits of shape \<open>(2, 3, V)\<close> and targets of shape \<open>(2, 3)\<close> with
  token IDs below \<open>V\<close> (the shape of the example the step-by-step cell is written
  for), the step-by-step loss (softmax, gather the probability of each target, log,
  mean, negate) equals the cross-entropy computed from the raw logits by log-softmax
  on the flattened tensors, in exact real arithmetic: both are the mean negative
  log-probability of the true next tokens over the 6 entries. The cross-entropy is
  that mean, over all \<open>B * T\<close> entries, for every shape \<open>(B, T, V)\<close> with at least one
  entry.
\<close>

theorem stepwise_loss_is_cross_entropy:
  "(has_shape 2 3 V logits targets \<longrightarrow>
      neg_avg_log_probas logits targets = loss logits targets \<and>
      neg_avg_log_probas logits targets = Inr (mean_neg_log_prob 2 3 V logits targets)) \<and>
   (has_shape B T V logits targets \<and> 0 < B \<and> 0 < T \<longrightarrow>
      loss logits targets = Inr (mean_neg_log_prob B T V logits targets))"
proof (intro conjI impI)
  assume shape: "has_shape 2 3 V logits targets"
  have n: "neg_avg_log_probas logits targets = Inr (mean_neg_log_prob 2 3 V logits targets)"
    using shape by (rule neg_avg_log_probas_value) simp_all
  have l: "loss logits targets = Inr (mean_neg_log_prob 2 3 V logits targets)"
    using shape by (rule loss_value) simp_all
  show "neg_avg_log_probas logits targets = loss logits targets"
    using n l by simp
  show "neg_avg_log_probas logits targets = Inr (mean_neg_log_prob 2 3 V logits targets)"
    by (rule n)
next
  assume "has_shape B T V logits targets \<and> 0 < B \<and> 0 < T"
  then show "loss logits targets = Inr (mean_neg_log_prob B T V logits targets)"
    by (intro loss_value) simp_all
qed

theorem stepwise_loss_is_cross_entropy_witness:
  "has_shape 2 3 2
     [ [ [0, 0], [0, 0], [0, 0] ], [ [0, 0], [0, 0], [0, 0] ] ] [ [0, 1, 0], [1, 0, 1] ] \<and>
   neg_avg_log_probas
     [ [ [0, 0], [0, 0], [0, 0] ], [ [0, 0], [0, 0], [0, 0] ] ] [ [0, 1, 0], [1, 0, 1] ] =
     Inr (ln 2) \<and>
   loss [ [ [0, 0], [0, 0], [0, 0] ], [ [0, 0], [0, 0], [0, 0] ] ] [ [0, 1, 0], [1, 0, 1] ] =
     Inr (ln 2)"
proof -
  let ?l = "[ [ [0, 0], [0, 0], [0, 0] ], [ [0, 0], [0, 0], [0, 0] ] ] :: real list list list"
  let ?t = "[ [0, 1, 0], [1, 0, 1] ] :: nat list list"
  have shape: "has_shape 2 3 2 ?l ?t"
    by (simp add: has_shape_def)
  have "(\<Sum>b<2::nat. \<Sum>p<3::nat. ln (exp (?l ! b ! p ! (?t ! b ! p)) /
          (\<Sum>v<2::nat. exp (?l ! b ! p ! v)))) = 6 * ln (1 / 2)"
    by (simp add: lessThan_Suc numeral_2_eq_2 numeral_3_eq_3)
  then have "mean_neg_log_prob 2 3 2 ?l ?t = ln 2"
    by (simp add: mean_neg_log_prob_def ln_div)
  then show ?thesis
    using stepwise_loss_is_cross_entropy [of 2 ?l ?t 2 3] shape by simp
qed



end
